theory Spec2Isabelle
  imports Main "HOL-Library.Word"
begin

unbundle bit_operations_syntax

section \<open>Bytes, Go strings and the standard-library helpers the code calls\<close>

text \<open>
  A Go \<open>string\<close> and a Go \<open>[]byte\<close> are both sequences of octets, and the conversions
  \<open>[]byte(s)\<close> and \<open>string(b)\<close> copy the octets unchanged.  Both are modelled as
  \<open>char list\<close>: an Isabelle \<open>char\<close> is exactly one octet.
\<close>

type_synonym bytes = string

definition byte_of_nat :: "nat \<Rightarrow> char" where
  "byte_of_nat n = char_of n"

definition nat_of_byte :: "char \<Rightarrow> nat" where
  "nat_of_byte c = of_char c"

text \<open>\<open>make([]byte, n)\<close>: \<open>n\<close> zero octets, capacity equal to length.\<close>

definition make_bytes :: "nat \<Rightarrow> bytes" where
  "make_bytes n = replicate n (byte_of_nat 0)"

text \<open>
  \<open>copy(buf[off:], src)\<close> for \<open>off \<le> len(buf)\<close>: overwrites the octets of \<open>buf\<close> from
  \<open>off\<close> on with those of \<open>src\<close>, as many as fit.
\<close>

definition copy_at :: "bytes \<Rightarrow> nat \<Rightarrow> bytes \<Rightarrow> bytes" where
  "copy_at buf off src =
     take off buf @ take (length buf - off) src @ drop (off + length src) buf"

text \<open>Go's \<open>buf[lo:hi]\<close> once the bounds have been checked.\<close>

definition slice :: "bytes \<Rightarrow> nat \<Rightarrow> nat \<Rightarrow> bytes" where
  "slice buf lo hi = take (hi - lo) (drop lo buf)"

subsection \<open>\<open>encoding/binary\<close>, little endian\<close>

fun le_bytes :: "nat \<Rightarrow> nat \<Rightarrow> bytes" where
  "le_bytes 0 n = []"
| "le_bytes (Suc k) n = byte_of_nat (n mod 256) # le_bytes k (n div 256)"

fun le_nat :: "bytes \<Rightarrow> nat" where
  "le_nat [] = 0"
| "le_nat (b # bs) = nat_of_byte b + 256 * le_nat bs"

text \<open>
  \<open>binary.LittleEndian.PutUintNN(buf[off:], v)\<close>; the callers below always pass a
  buffer with room for the field, so the bounds panic of the library cannot occur there.
\<close>

definition PutUint16 :: "bytes \<Rightarrow> nat \<Rightarrow> 16 word \<Rightarrow> bytes" where
  "PutUint16 buf off v = copy_at buf off (le_bytes 2 (unat v))"

definition PutUint32 :: "bytes \<Rightarrow> nat \<Rightarrow> 32 word \<Rightarrow> bytes" where
  "PutUint32 buf off v = copy_at buf off (le_bytes 4 (unat v))"

definition PutUint64 :: "bytes \<Rightarrow> nat \<Rightarrow> 64 word \<Rightarrow> bytes" where
  "PutUint64 buf off v = copy_at buf off (le_bytes 8 (unat v))"

text \<open>
  \<open>binary.LittleEndian.UintNN(buf[off:])\<close>; it panics unless \<open>buf\<close> holds the whole
  field, which every caller below checks first.
\<close>

definition Uint16 :: "bytes \<Rightarrow> nat \<Rightarrow> 16 word" where
  "Uint16 buf off = word_of_nat (le_nat (slice buf off (off + 2)))"

definition Uint32 :: "bytes \<Rightarrow> nat \<Rightarrow> 32 word" where
  "Uint32 buf off = word_of_nat (le_nat (slice buf off (off + 4)))"

definition Uint64 :: "bytes \<Rightarrow> nat \<Rightarrow> 64 word" where
  "Uint64 buf off = word_of_nat (le_nat (slice buf off (off + 8)))"

subsection \<open>\<open>hash/crc32\<close>: the IEEE checksum\<close>

definition crc_shift :: "32 word \<Rightarrow> 32 word" where
  "crc_shift c = (if bit c 0 then drop_bit 1 c XOR 0xEDB88320 else drop_bit 1 c)"

definition crc_update :: "32 word \<Rightarrow> char \<Rightarrow> 32 word" where
  "crc_update c b = (crc_shift ^^ 8) (c XOR word_of_nat (nat_of_byte b))"

definition ChecksumIEEE :: "bytes \<Rightarrow> 32 word" where
  "ChecksumIEEE bs = foldl crc_update 0xFFFFFFFF bs XOR 0xFFFFFFFF"

section \<open>Package recfmt: the record codec\<close>

datatype os_error = ENOENT | EACCES | EIO | EOF | EINVAL | EBADF

datatype error =
    ErrRequireWrite string   \<comment> \<open>\<open>"<Op>: require write permission"\<close>\<close>
  | ErrKeyNotExist bytes     \<comment> \<open>\<open>"<key>: key does not exist"\<close>\<close>
  | ErrDataCorruption
  | ErrAccessDenied
  | ErrOs os_error
  | Panic                    \<comment> \<open>a Go run-time panic (slice bounds out of range)\<close>

definition DataFileRecHdr :: nat where
  "DataFileRecHdr = 18"

record DataRec =
  Key :: bytes
  Value :: bytes
  Tstamp :: "64 word"
  KeySize :: "16 word"
  ValueSize :: "32 word"

definition CompressDataFileRec :: "bytes \<Rightarrow> bytes \<Rightarrow> 64 word \<Rightarrow> bytes" where
  "CompressDataFileRec key val tstamp =
     (let buf = make_bytes (DataFileRecHdr + length key + length val);
          buf = PutUint64 buf 4 tstamp;
          buf = PutUint16 buf 12 (word_of_nat (length key));
          buf = PutUint32 buf 14 (word_of_nat (length val));
          buf = copy_at buf DataFileRecHdr key;
          buf = copy_at buf (DataFileRecHdr + length key) val;
          checkSum = ChecksumIEEE (drop 4 buf)
      in PutUint32 buf 0 checkSum)"

definition validateCheckSum :: "32 word \<Rightarrow> bytes \<Rightarrow> error option" where
  "validateCheckSum parsedSum rec =
     (if parsedSum \<noteq> ChecksumIEEE rec then Some ErrDataCorruption else None)"

text \<open>
  \<open>ExtractDataFileRec\<close>.  The header reads panic on a buffer shorter than the header.
  \<open>DataFileRecHdr + keySize\<close> is computed in \<open>uint16\<close> (the constant takes the type of
  \<open>keySize\<close>) and \<open>valueOffset + valueSize\<close> in \<open>uint32\<close>; both wrap, and a slice
  expression \<open>buf[lo:hi]\<close> panics unless \<open>lo \<le> hi \<le> cap(buf)\<close>.  The buffers decoded here
  have capacity equal to length.
\<close>

definition ExtractDataFileRec :: "bytes \<Rightarrow> error + (DataRec \<times> 32 word)" where
  "ExtractDataFileRec buf =
     (if length buf < DataFileRecHdr then Inl Panic
      else
        let parsedSum = Uint32 buf 0;
            tstamp = Uint64 buf 4;
            keySize = Uint16 buf 12;
            valueSize = Uint32 buf 14;
            keyEnd = (word_of_nat DataFileRecHdr + keySize :: 16 word)
        in if unat keyEnd < DataFileRecHdr \<or> length buf < unat keyEnd then Inl Panic
           else
             let key = slice buf DataFileRecHdr (unat keyEnd);
                 valueOffset = (ucast keyEnd :: 32 word);
                 valueEnd = valueOffset + valueSize
             in if unat valueEnd < unat valueOffset \<or> length buf < unat valueEnd then Inl Panic
                else
                  let val = slice buf (unat valueOffset) (unat valueEnd);
                      sumEnd = (word_of_nat DataFileRecHdr + ucast keySize + valueSize :: 32 word)
                  in if unat sumEnd < 4 \<or> length buf < unat sumEnd then Inl Panic
                     else
                       (case validateCheckSum parsedSum (slice buf 4 (unat sumEnd)) of
                          Some err \<Rightarrow> Inl err
                        | None \<Rightarrow>
                            Inr (\<lparr>Key = key, Value = val, Tstamp = tstamp,
                                  KeySize = keySize, ValueSize = valueSize\<rparr>,
                                 word_of_nat DataFileRecHdr + valueSize + ucast keySize)))"

text \<open>
  The octets from the checksum field onwards: what \<open>CompressDataFileRec\<close> leaves in
  \<open>buf[4:]\<close> (shown below), and what the checksum is computed over.
\<close>

definition data_body :: "bytes \<Rightarrow> bytes \<Rightarrow> 64 word \<Rightarrow> bytes" where
  "data_body key val tstamp =
     le_bytes 8 (unat tstamp) @ le_bytes 2 (unat (word_of_nat (length key) :: 16 word)) @
     le_bytes 4 (unat (word_of_nat (length val) :: 32 word)) @ key @ val"

subsection \<open>\<open>strconv\<close> and \<open>fmt\<close>: decimal numbers\<close>

definition is_digit :: "char \<Rightarrow> bool" where
  "is_digit c = (48 \<le> nat_of_byte c \<and> nat_of_byte c \<le> 57)"

function decimal :: "nat \<Rightarrow> string" where
  "decimal n = (if n < 10 then [byte_of_nat (48 + n)]
                else decimal (n div 10) @ [byte_of_nat (48 + n mod 10)])"
  by pat_completeness auto
termination
  by (relation "measure (\<lambda>n. n)") auto

text \<open>\<open>strconv.FormatUint(v, 10)\<close> and \<open>fmt.Sprintf("%d", t)\<close> for an \<open>int64\<close>.\<close>

definition FormatUint :: "64 word \<Rightarrow> string" where
  "FormatUint v = decimal (unat v)"

definition FormatInt :: "64 word \<Rightarrow> string" where
  "FormatInt t = (if sint t < 0 then CHR ''-'' # decimal (nat (- sint t))
                  else decimal (nat (sint t)))"

datatype num_error = ErrSyntax | ErrRange

text \<open>
  \<open>strconv.ParseUint(s, 10, 64)\<close>: the empty string and any octet that is not a decimal
  digit give \<open>(0, ErrSyntax)\<close> (no sign, no underscore in base 10); a value beyond 64 bits
  gives \<open>(2^64 - 1, ErrRange)\<close>.  \<open>cutoff\<close> is \<open>maxUint64/10 + 1\<close>.
\<close>

definition cutoff :: "64 word" where
  "cutoff = 1844674407370955162"

fun ParseUint_loop :: "64 word \<Rightarrow> string \<Rightarrow> 64 word \<times> num_error option" where
  "ParseUint_loop n [] = (n, None)"
| "ParseUint_loop n (c # cs) =
     (if \<not> is_digit c then (0, Some ErrSyntax)
      else if cutoff \<le> n then (- 1, Some ErrRange)
      else
        let n10 = n * 10;
            n1 = n10 + word_of_nat (nat_of_byte c - 48)
        in if n1 < n10 then (- 1, Some ErrRange) else ParseUint_loop n1 cs)"

definition ParseUint :: "string \<Rightarrow> 64 word \<times> num_error option" where
  "ParseUint s = (if s = [] then (0, Some ErrSyntax) else ParseUint_loop 0 s)"

subsection \<open>Index snapshot records and hint records\<close>

definition keyDirFileHdr :: nat where
  "keyDirFileHdr = 26"

definition HintFileRecHdr :: nat where
  "HintFileRecHdr = 18"

record KeyDirRec =
  FileId :: string
  ValuePos :: "32 word"
  ValueSize :: "32 word"
  Tstamp :: "64 word"

text \<open>The error of \<open>ParseUint\<close> is discarded (\<open>fid, _ := ...\<close>).\<close>

definition CompressKeyDirRec :: "bytes \<Rightarrow> KeyDirRec \<Rightarrow> bytes" where
  "CompressKeyDirRec key rec =
     (let keySize = length key;
          buf = make_bytes (keyDirFileHdr + keySize);
          fid = fst (ParseUint (FileId rec));
          buf = PutUint64 buf 0 fid;
          buf = PutUint16 buf 8 (word_of_nat keySize);
          buf = PutUint32 buf 10 (KeyDirRec.ValueSize rec);
          buf = PutUint32 buf 14 (ValuePos rec);
          buf = PutUint64 buf 18 (KeyDirRec.Tstamp rec)
      in copy_at buf 26 key)"

text \<open>
  \<open>ExtractKeyDirRec\<close>: the slice bound \<open>keySize+26\<close> is a \<open>uint16\<close> sum; the returned
  length \<open>keyDirFileHdr + int(keySize)\<close> is not.
\<close>

definition ExtractKeyDirRec :: "bytes \<Rightarrow> error + (bytes \<times> KeyDirRec \<times> nat)" where
  "ExtractKeyDirRec buf =
     (if length buf < keyDirFileHdr then Inl Panic
      else
        let fileId = FormatUint (Uint64 buf 0);
            keySize = Uint16 buf 8;
            valueSize = Uint32 buf 10;
            valuePos = Uint32 buf 14;
            tstamp = Uint64 buf 18;
            keyEnd = (keySize + 26 :: 16 word)
        in if unat keyEnd < 26 \<or> length buf < unat keyEnd then Inl Panic
           else Inr (slice buf 26 (unat keyEnd),
                     \<lparr>FileId = fileId, ValuePos = valuePos, ValueSize = valueSize,
                      Tstamp = tstamp\<rparr>,
                     keyDirFileHdr + unat keySize))"

definition CompressHintFileRec :: "bytes \<Rightarrow> KeyDirRec \<Rightarrow> bytes" where
  "CompressHintFileRec key rec =
     (let buf = make_bytes (HintFileRecHdr + length key);
          buf = PutUint64 buf 0 (KeyDirRec.Tstamp rec);
          buf = PutUint16 buf 8 (word_of_nat (length key));
          buf = PutUint32 buf 10 (KeyDirRec.ValueSize rec);
          buf = PutUint32 buf 14 (ValuePos rec)
      in copy_at buf 18 key)"

text \<open>\<open>ExtractHintFileRec\<close> leaves \<open>FileId\<close> at its zero value, the empty string.\<close>

definition ExtractHintFileRec :: "bytes \<Rightarrow> error + (bytes \<times> KeyDirRec \<times> nat)" where
  "ExtractHintFileRec buf =
     (if length buf < HintFileRecHdr then Inl Panic
      else
        let tstamp = Uint64 buf 0;
            keySize = Uint16 buf 8;
            valueSize = Uint32 buf 10;
            valuePos = Uint32 buf 14;
            keyEnd = (word_of_nat HintFileRecHdr + keySize :: 16 word)
        in if unat keyEnd < HintFileRecHdr \<or> length buf < unat keyEnd then Inl Panic
           else Inr (slice buf HintFileRecHdr (unat keyEnd),
                     \<lparr>FileId = [], ValuePos = valuePos, ValueSize = valueSize,
                      Tstamp = tstamp\<rparr>,
                     HintFileRecHdr + unat keySize))"

section \<open>Package sio: reads and writes that retry on a short count\<close>

definition maxAttempts :: "64 word" where
  "maxAttempts = 5"

text \<open>
  \<open>File.Write\<close>.  The underlying \<open>os.File.Write\<close> is the parameter \<open>wr\<close>: from the state
  of the operating system and the octets offered it gives the count written, the error
  (\<open>None\<close> is \<open>nil\<close>) and the new state.  The loop variables are those of the source:
  \<open>i\<close> (advanced by the last count in the post statement), \<open>err\<close> and \<open>attempts\<close>, a Go
  \<open>int\<close>.  \<open>b[i:]\<close> panics when \<open>i\<close> exceeds \<open>len(b)\<close>.
\<close>

function Write_loop ::
  "('s \<Rightarrow> bytes \<Rightarrow> (nat \<times> os_error option) \<times> 's) \<Rightarrow> bytes \<Rightarrow> nat \<Rightarrow> os_error option \<Rightarrow>
   64 word \<Rightarrow> 's \<Rightarrow> (error + nat) \<times> 's" where
  "Write_loop wr b i err attempts s =
     (case err of
        None \<Rightarrow> (Inr (length b), s)
      | Some e \<Rightarrow>
          if attempts = maxAttempts then (Inl (ErrOs e), s)
          else if length b < i then (Inl Panic, s)
          else
            let r = wr s (drop i b)
            in Write_loop wr b (i + fst (fst r)) (snd (fst r)) (attempts + 1) (snd r))"
  by pat_completeness auto
termination
proof (relation "measure (\<lambda>(wr, b, i, err, attempts, s). unat (maxAttempts - attempts))")
  show "wf (measure (\<lambda>(wr, b, i, err, attempts, s). unat (maxAttempts - attempts)))"
    by simp
next
  fix wr :: "'s \<Rightarrow> bytes \<Rightarrow> (nat \<times> os_error option) \<times> 's"
    and b i err and attempts :: "64 word" and s :: 's and x2 x
  assume "attempts \<noteq> maxAttempts"
  then have "maxAttempts - attempts \<noteq> 0" by simp
  then have "unat (maxAttempts - attempts - 1) < unat (maxAttempts - attempts)"
    by (rule measure_unat)
  moreover have "maxAttempts - (attempts + 1) = maxAttempts - attempts - 1" by simp
  ultimately have "unat (maxAttempts - (attempts + 1)) < unat (maxAttempts - attempts)"
    by (simp only:)
  then show "((wr, b, i + fst (fst x), snd (fst x), attempts + 1, snd x),
      wr, b, i, err, attempts, s)
      \<in> measure (\<lambda>(wr, b, i, err, attempts, s). unat (maxAttempts - attempts))"
    by (simp only: in_measure prod.case)
qed

declare Write_loop.simps [simp del]

definition sio_Write ::
  "('s \<Rightarrow> bytes \<Rightarrow> (nat \<times> os_error option) \<times> 's) \<Rightarrow> bytes \<Rightarrow> 's \<Rightarrow> (error + nat) \<times> 's" where
  "sio_Write wr b s = (let r = wr s b in Write_loop wr b (fst (fst r)) (snd (fst r)) 0 (snd r))"

text \<open>
  \<open>File.ReadAt\<close>.  The underlying positional read is the parameter \<open>rd\<close>: asked for a
  number of octets at an offset it gives the octets read and the error.  A positional
  read does not depend on a file position, so it carries no state.  The octets read
  into \<open>b[i:]\<close> overwrite the buffer from \<open>i\<close> on.  \<open>attempts\<close> is passed on unchanged: the
  loop body of the source never assigns it.  The loop may not return, so the result is
  an option and \<open>None\<close> stands for no return.
\<close>

partial_function (option) ReadAt_loop ::
  "(nat \<Rightarrow> 64 word \<Rightarrow> bytes \<times> os_error option) \<Rightarrow> bytes \<Rightarrow> nat \<Rightarrow> 64 word \<Rightarrow>
   os_error option \<Rightarrow> 64 word \<Rightarrow> (bytes \<times> (error + nat)) option" where
  "ReadAt_loop rd b i off err attempts =
     (case err of
        None \<Rightarrow> Some (b, Inr (length b))
      | Some e \<Rightarrow>
          if attempts = maxAttempts then Some (b, Inl (ErrOs e))
          else if length b < i then Some (b, Inl Panic)
          else
            ReadAt_loop rd (copy_at b i (fst (rd (length b - i) (off + word_of_nat i))))
              (i + length (fst (rd (length b - i) (off + word_of_nat i))))
              (off + word_of_nat i)
              (snd (rd (length b - i) (off + word_of_nat i)))
              attempts)"

definition sio_ReadAt ::
  "(nat \<Rightarrow> 64 word \<Rightarrow> bytes \<times> os_error option) \<Rightarrow> bytes \<Rightarrow> 64 word \<Rightarrow>
   (bytes \<times> (error + nat)) option" where
  "sio_ReadAt rd b off =
     ReadAt_loop rd (copy_at b 0 (fst (rd (length b) off))) (length (fst (rd (length b) off)))
       off (snd (rd (length b) off)) 0"

text \<open>
  \<open>os.File.ReadAt\<close> on a regular file with the given content: the octets available at
  the offset, with \<open>io.EOF\<close> when they are fewer than asked for, and an error for a
  negative offset.
\<close>

definition file_ReadAt :: "bytes \<Rightarrow> nat \<Rightarrow> 64 word \<Rightarrow> bytes \<times> os_error option" where
  "file_ReadAt content n off =
     (if sint off < 0 then ([], Some EINVAL)
      else
        let got = take n (drop (nat (sint off)) content)
        in (got, if length got < n then Some EOF else None))"

section \<open>Package datastore: the directory, the segment writer and positional reads\<close>

text \<open>
  The datastore directory is a map from file names to contents.  An open \<open>*os.File\<close> is
  the name of its file, its file offset and whether it has been closed.  The files are
  opened with \<open>O_CREATE|O_RDWR\<close> (and \<open>O_SYNC\<close> on request), so without \<open>O_APPEND\<close> or
  \<open>O_TRUNC\<close>: an existing file keeps its content and is written from offset 0.
\<close>

type_synonym dir = "string \<rightharpoonup> bytes"

record os_file =
  fname :: string
  foffset :: nat
  fclosed :: bool

definition os_OpenFile :: "dir \<Rightarrow> string \<Rightarrow> dir \<times> os_file" where
  "os_OpenFile d n =
     ((case d n of None \<Rightarrow> d(n \<mapsto> []) | Some c \<Rightarrow> d),
      \<lparr>fname = n, foffset = 0, fclosed = False\<rparr>)"

text \<open>Closing reports the error the operating system gives, or that the file is closed.\<close>

definition os_Close :: "os_file \<Rightarrow> os_error option \<Rightarrow> os_error option \<times> os_file" where
  "os_Close f fault = ((if fclosed f then Some EBADF else fault), f\<lparr>fclosed := True\<rparr>)"

text \<open>
  One \<open>write\<close> system call either takes all the octets (\<open>WOk\<close>) or takes at most \<open>m\<close> of
  them and reports an error (\<open>WShort m e\<close>).  The answers of the operating system to the
  successive calls are a list; once it is used up every call succeeds.
\<close>

datatype wresp = WOk | WShort nat os_error

definition write_at :: "bytes \<Rightarrow> nat \<Rightarrow> bytes \<Rightarrow> bytes" where
  "write_at content off b =
     (let c = content @ make_bytes (off - length content)
      in take off c @ b @ drop (off + length b) c)"

fun os_Write ::
  "dir \<times> os_file \<times> wresp list \<Rightarrow> bytes \<Rightarrow> (nat \<times> os_error option) \<times> (dir \<times> os_file \<times> wresp list)"
  where
  "os_Write (d, f, rs) b =
     (if fclosed f then ((0, Some EBADF), (d, f, rs))
      else
        let n = (case rs of WShort m e # rs' \<Rightarrow> min m (length b) | _ \<Rightarrow> length b);
            err = (case rs of WShort m e # rs' \<Rightarrow> Some e | _ \<Rightarrow> None);
            d' = (case d (fname f) of
                    None \<Rightarrow> d
                  | Some c \<Rightarrow> d(fname f \<mapsto> write_at c (foffset f) (take n b)))
        in ((n, err), (d', f\<lparr>foffset := foffset f + n\<rparr>, tl rs)))"

definition os_Remove :: "dir \<Rightarrow> string \<Rightarrow> os_error option \<times> dir" where
  "os_Remove d n = (case d n of None \<Rightarrow> (Some ENOENT, d) | Some c \<Rightarrow> (None, d(n := None)))"

datatype AppendType = Merge_type | Active_type

definition maxFileSize :: nat where
  "maxFileSize = 10 * 1024"

definition TompStone :: bytes where
  "TompStone = ''8890fc70294d02dbde257989e802451c2276be7fb177c3ca4399dc4728e4e1e0''"

text \<open>
  \<open>AppendFile\<close>.  \<open>filePath\<close> and \<open>fileFlags\<close> are left out: there is one directory, and
  the flags are as described above.  \<open>None\<close> is a nil wrapper.
\<close>

record AppendFile =
  fileWrapper :: "os_file option"
  hintWrapper :: "os_file option"
  fileName :: string
  appendType :: AppendType
  currentPos :: nat
  currentSize :: nat

definition NewAppendFile :: "AppendType \<Rightarrow> AppendFile" where
  "NewAppendFile t =
     \<lparr>fileWrapper = None, hintWrapper = None, fileName = [], appendType = t,
      currentPos = 0, currentSize = 0\<rparr>"

text \<open>
  What the operating system does during one call of \<open>WriteData\<close>: the reading of the
  clock in \<open>newAppendFile\<close>, the outcome of closing and opening the data and hint files,
  and the answers to the writes.
\<close>

record append_env =
  clock :: "64 word"
  close_data :: "os_error option"
  close_hint :: "os_error option"
  open_data :: "os_error option"
  open_hint :: "os_error option"
  writes :: "wresp list"

definition newAppendFile :: "AppendFile \<Rightarrow> dir \<Rightarrow> append_env \<Rightarrow> error option \<times> AppendFile \<times> dir" where
  "newAppendFile a d env =
     (let closing =
            (case fileWrapper a of
               None \<Rightarrow> (None, a)
             | Some f \<Rightarrow>
                 let cf = os_Close f (close_data env);
                     a1 = a\<lparr>fileWrapper := Some (snd cf)\<rparr>
                 in case fst cf of
                      Some e \<Rightarrow> (Some (ErrOs e), a1)
                    | None \<Rightarrow>
                        if appendType a = Merge_type then
                          (case hintWrapper a of
                             None \<Rightarrow> (Some Panic, a1)
                           | Some h \<Rightarrow>
                               let ch = os_Close h (close_hint env);
                                   a2 = a1\<lparr>hintWrapper := Some (snd ch)\<rparr>
                               in (map_option ErrOs (fst ch), a2))
                        else (None, a1))
      in case fst closing of
           Some e \<Rightarrow> (Some e, snd closing, d)
         | None \<Rightarrow>
             let a1 = snd closing;
                 tstamp = clock env;
                 fileName = FormatInt tstamp @ ''.data''
             in case open_data env of
                  Some e \<Rightarrow> (Some (ErrOs e), a1, d)
                | None \<Rightarrow>
                    let opened = os_OpenFile d fileName;
                        d1 = fst opened;
                        file = snd opened
                    in if appendType a = Merge_type then
                         let hintName = FormatInt tstamp @ ''.hint''
                         in case open_hint env of
                              Some e \<Rightarrow> (Some (ErrOs e), a1, d1)
                            | None \<Rightarrow>
                                let openedh = os_OpenFile d1 hintName
                                in (None,
                                    a1\<lparr>hintWrapper := Some (snd openedh),
                                       fileWrapper := Some file, fileName := fileName,
                                       currentPos := 0, currentSize := 0\<rparr>,
                                    fst openedh)
                       else
                         (None,
                          a1\<lparr>fileWrapper := Some file, fileName := fileName,
                             currentPos := 0, currentSize := 0\<rparr>,
                          d1))"

text \<open>
  \<open>WriteData\<close>.  On a failed write the positions are not advanced, although the file
  offset of the open file is, by the octets that were written.
\<close>

definition WriteData ::
  "AppendFile \<Rightarrow> dir \<Rightarrow> bytes \<Rightarrow> bytes \<Rightarrow> 64 word \<Rightarrow> append_env \<Rightarrow> (error + nat) \<times> AppendFile \<times> dir"
  where
  "WriteData a d key val tstamp env =
     (let rec = CompressDataFileRec key val tstamp;
          minted =
            (if fileWrapper a = None \<or> maxFileSize < length rec + currentSize a
             then newAppendFile a d env else (None, a, d));
          a1 = fst (snd minted);
          d1 = snd (snd minted)
      in case fst minted of
           Some e \<Rightarrow> (Inl e, a1, d1)
         | None \<Rightarrow>
             (case fileWrapper a1 of
                None \<Rightarrow> (Inl Panic, a1, d1)
              | Some f \<Rightarrow>
                  let w = sio_Write os_Write rec (d1, f, writes env);
                      d2 = fst (snd w);
                      a2 = a1\<lparr>fileWrapper := Some (fst (snd (snd w)))\<rparr>
                  in case fst w of
                       Inl e \<Rightarrow> (Inl e, a2, d2)
                     | Inr n \<Rightarrow>
                         (Inr (currentPos a1),
                          a2\<lparr>currentPos := currentPos a1 + n,
                             currentSize := currentSize a1 + n\<rparr>,
                          d2)))"

text \<open>\<open>WriteHint\<close>; a nil \<open>hintWrapper\<close> is a nil-pointer panic.\<close>

definition WriteHint ::
  "AppendFile \<Rightarrow> dir \<Rightarrow> bytes \<Rightarrow> KeyDirRec \<Rightarrow> wresp list \<Rightarrow> error option \<times> AppendFile \<times> dir" where
  "WriteHint a d key rec ws =
     (let buf = CompressHintFileRec key rec
      in case hintWrapper a of
           None \<Rightarrow> (Some Panic, a, d)
         | Some h \<Rightarrow>
             let w = sio_Write os_Write buf (d, h, ws)
             in ((case fst w of Inl e \<Rightarrow> Some e | Inr n \<Rightarrow> None),
                 a\<lparr>hintWrapper := Some (fst (snd (snd w)))\<rparr>,
                 fst (snd w)))"

definition AppendFile_Name :: "AppendFile \<Rightarrow> string" where
  "AppendFile_Name a = fileName a"

definition AppendFile_Sync :: "AppendFile \<Rightarrow> os_error option \<Rightarrow> error option" where
  "AppendFile_Sync a fault =
     (case fileWrapper a of
        None \<Rightarrow> None
      | Some f \<Rightarrow> if fclosed f then Some (ErrOs EBADF) else map_option ErrOs fault)"

definition AppendFile_Close :: "AppendFile \<Rightarrow> AppendFile" where
  "AppendFile_Close a =
     (case fileWrapper a of
        None \<Rightarrow> a
      | Some f \<Rightarrow>
          let a1 = a\<lparr>fileWrapper := Some (f\<lparr>fclosed := True\<rparr>)\<rparr>
          in if appendType a = Merge_type
             then a1\<lparr>hintWrapper := map_option (\<lambda>h. h\<lparr>fclosed := True\<rparr>) (hintWrapper a)\<rparr>
             else a1)"

text \<open>
  \<open>ReadValueFromFile\<close>.  The buffer size is a \<open>uint32\<close> sum.  \<open>sio.Open\<close> fails when
  the file is missing.  The result of \<open>f.ReadAt\<close> is discarded: the buffer is decoded
  whatever was read into it.  \<open>None\<close> stands for no return.
\<close>

definition ReadValueFromFile ::
  "dir \<Rightarrow> string \<Rightarrow> bytes \<Rightarrow> 32 word \<Rightarrow> 32 word \<Rightarrow> (error + bytes) option" where
  "ReadValueFromFile d fileId key valuePos valueSize =
     (let bufsz = (word_of_nat DataFileRecHdr + word_of_nat (length key) + valueSize :: 32 word);
          buf = make_bytes (unat bufsz)
      in case d fileId of
           None \<Rightarrow> Some (Inl (ErrOs ENOENT))
         | Some content \<Rightarrow>
             (case sio_ReadAt (file_ReadAt content) buf (ucast valuePos) of
                None \<Rightarrow> None
              | Some r \<Rightarrow>
                  (case ExtractDataFileRec (fst r) of
                     Inl err \<Rightarrow> Some (Inl err)
                   | Inr dl \<Rightarrow>
                       if DataRec.Value (fst dl) = TompStone
                       then Some (Inl (ErrKeyNotExist (Key (fst dl))))
                       else Some (Inr (DataRec.Value (fst dl))))))"

section \<open>Package bitcask: the engine\<close>

datatype ConfigOpt = ReadOnly | ReadWrite | SyncOnPut | SyncOnDemand

record options =
  syncOption :: ConfigOpt
  accessPermission :: ConfigOpt

type_synonym KeyDir = "bytes \<rightharpoonup> KeyDirRec"

fun parseUsrOpts_loop :: "options \<Rightarrow> ConfigOpt list \<Rightarrow> options" where
  "parseUsrOpts_loop usrOpts [] = usrOpts"
| "parseUsrOpts_loop usrOpts (opt # opts) =
     parseUsrOpts_loop
       (case opt of
          SyncOnPut \<Rightarrow> usrOpts\<lparr>syncOption := SyncOnPut\<rparr>
        | ReadWrite \<Rightarrow> usrOpts\<lparr>accessPermission := ReadWrite\<rparr>
        | _ \<Rightarrow> usrOpts)
       opts"

definition parseUsrOpts :: "ConfigOpt list \<Rightarrow> options" where
  "parseUsrOpts opts =
     parseUsrOpts_loop \<lparr>syncOption = SyncOnDemand, accessPermission = ReadOnly\<rparr> opts"

text \<open>
  The engine handle.  The mutex and the reader count are left out: the operations are
  run one after the other.  \<open>dataStore\<close> is the directory, passed beside the handle.
\<close>

record Bitcask =
  keyDir :: KeyDir
  usrOpts :: options
  activeFile :: AppendFile

definition Get :: "Bitcask \<Rightarrow> dir \<Rightarrow> bytes \<Rightarrow> (error + bytes) option" where
  "Get b d key =
     (case keyDir b key of
        None \<Rightarrow> Some (Inl (ErrKeyNotExist key))
      | Some rec \<Rightarrow> ReadValueFromFile d (FileId rec) key (ValuePos rec) (KeyDirRec.ValueSize rec))"

text \<open>What the operating system does during one \<open>Put\<close>: the clock read by \<open>Put\<close> itself,
  and the rest as for \<open>WriteData\<close>.\<close>

record put_env =
  put_now :: "64 word"
  put_os :: append_env

definition Put :: "Bitcask \<Rightarrow> dir \<Rightarrow> bytes \<Rightarrow> bytes \<Rightarrow> put_env \<Rightarrow> error option \<times> Bitcask \<times> dir" where
  "Put b d key val env =
     (if accessPermission (usrOpts b) = ReadOnly then (Some (ErrRequireWrite ''Put''), b, d)
      else
        let tstamp = put_now env;
            w = WriteData (activeFile b) d key val tstamp (put_os env);
            a = fst (snd w);
            d1 = snd (snd w)
        in case fst w of
             Inl err \<Rightarrow> (Some err, b\<lparr>activeFile := a\<rparr>, d1)
           | Inr n \<Rightarrow>
               (None,
                b\<lparr>activeFile := a,
                  keyDir := (keyDir b)(key \<mapsto>
                    \<lparr>FileId = AppendFile_Name a, ValuePos = word_of_nat n,
                     ValueSize = word_of_nat (length val), Tstamp = tstamp\<rparr>)\<rparr>,
                d1))"

text \<open>\<open>Delete\<close>: the error of the inner \<open>Put\<close> is dropped.\<close>

definition Delete :: "Bitcask \<Rightarrow> dir \<Rightarrow> bytes \<Rightarrow> put_env \<Rightarrow> (error option \<times> Bitcask \<times> dir) option" where
  "Delete b d key env =
     (if accessPermission (usrOpts b) = ReadOnly
      then Some (Some (ErrRequireWrite ''Delete''), b, d)
      else
        case Get b d key of
          None \<Rightarrow> None
        | Some (Inl err) \<Rightarrow> Some (Some err, b, d)
        | Some (Inr v) \<Rightarrow> Some (None, snd (Put b d key TompStone env)))"

text \<open>\<open>ListKeys\<close>: the keys in the order in which the map is ranged over, which the
  run time chooses; \<open>order\<close> is that order.\<close>

definition ListKeys :: "Bitcask \<Rightarrow> bytes list \<Rightarrow> bytes list" where
  "ListKeys b order = filter (\<lambda>key. keyDir b key \<noteq> None) order"

text \<open>\<open>Fold\<close>: the error of \<open>Get\<close> is dropped and the empty value passed on.\<close>

fun Fold_loop :: "Bitcask \<Rightarrow> dir \<Rightarrow> (bytes \<Rightarrow> bytes \<Rightarrow> 'a \<Rightarrow> 'a) \<Rightarrow> 'a \<Rightarrow> bytes list \<Rightarrow> 'a option" where
  "Fold_loop b d fn acc [] = Some acc"
| "Fold_loop b d fn acc (key # keys) =
     (if keyDir b key = None then Fold_loop b d fn acc keys
      else
        case Get b d key of
          None \<Rightarrow> None
        | Some (Inl err) \<Rightarrow> Fold_loop b d fn (fn key [] acc) keys
        | Some (Inr v) \<Rightarrow> Fold_loop b d fn (fn key v acc) keys)"

definition Fold :: "Bitcask \<Rightarrow> dir \<Rightarrow> (bytes \<Rightarrow> bytes \<Rightarrow> 'a \<Rightarrow> 'a) \<Rightarrow> 'a \<Rightarrow> bytes list \<Rightarrow> 'a option" where
  "Fold b d fn acc order = Fold_loop b d fn acc order"

text \<open>
  What the operating system and the run time do during one \<open>Merge\<close>: the outcome of
  reading the directory (its entries, in some order), and the keys of the index in the
  order in which the map is ranged over, each with the clock read by \<open>mergeWrite\<close> and
  the behaviour of the two appends.
\<close>

record merge_step_env =
  step_now :: "64 word"
  step_os :: append_env
  step_hint :: "wresp list"

record merge_env =
  readdir :: "os_error + string list"
  ranging :: "(bytes \<times> merge_step_env) list"

text \<open>\<open>listOldFiles\<close>; \<open>fileName[0]\<close> panics on an empty name.\<close>

fun listOldFiles_loop :: "Bitcask \<Rightarrow> string list \<Rightarrow> string list \<Rightarrow> error + string list" where
  "listOldFiles_loop b res [] = Inr res"
| "listOldFiles_loop b res (file # files) =
     (case file of
        [] \<Rightarrow> Inl Panic
      | c # cs \<Rightarrow>
          if c \<noteq> CHR ''.'' \<and> file \<noteq> AppendFile_Name (activeFile b) \<and> file \<noteq> ''keydir''
          then listOldFiles_loop b (res @ [file]) files
          else listOldFiles_loop b res files)"

definition listOldFiles :: "Bitcask \<Rightarrow> merge_env \<Rightarrow> error + string list" where
  "listOldFiles b env =
     (case readdir env of
        Inl e \<Rightarrow> Inl (ErrOs e)
      | Inr files \<Rightarrow> listOldFiles_loop b [] files)"

definition zero_KeyDirRec :: KeyDirRec where
  "zero_KeyDirRec = \<lparr>FileId = [], ValuePos = 0, ValueSize = 0, Tstamp = 0\<rparr>"

definition mergeWrite ::
  "Bitcask \<Rightarrow> dir \<Rightarrow> AppendFile \<Rightarrow> bytes \<Rightarrow> merge_step_env \<Rightarrow>
   ((error + KeyDirRec) \<times> AppendFile \<times> dir) option" where
  "mergeWrite b d mergeFile key env =
     (let rec = (case keyDir b key of None \<Rightarrow> zero_KeyDirRec | Some r \<Rightarrow> r)
      in case ReadValueFromFile d (FileId rec) key (ValuePos rec) (KeyDirRec.ValueSize rec) of
           None \<Rightarrow> None
         | Some (Inl err) \<Rightarrow> Some (Inl err, mergeFile, d)
         | Some (Inr val) \<Rightarrow>
             let tstamp = step_now env;
                 w = WriteData mergeFile d key val tstamp (step_os env);
                 m1 = fst (snd w);
                 d1 = snd (snd w)
             in case fst w of
                  Inl err \<Rightarrow> Some (Inl err, m1, d1)
                | Inr n \<Rightarrow>
                    let newRec = \<lparr>FileId = AppendFile_Name m1, ValuePos = word_of_nat n,
                                  ValueSize = word_of_nat (length val), Tstamp = tstamp\<rparr>;
                        h = WriteHint m1 d1 key newRec (step_hint env)
                    in case fst h of
                         Some err \<Rightarrow> Some (Inl err, snd h)
                       | None \<Rightarrow> Some (Inr newRec, snd h))"

text \<open>
  The test \<open>strings.HasSuffix(err.Error(), ErrKeyNotExist.Error())\<close>: of the errors
  above only \<open>"<key>: key does not exist"\<close> ends in \<open>"key does not exist"\<close>.
\<close>

fun isKeyNotExist :: "error \<Rightarrow> bool" where
  "isKeyNotExist (ErrKeyNotExist k) = True"
| "isKeyNotExist e = False"

fun Merge_loop ::
  "Bitcask \<Rightarrow> AppendFile \<Rightarrow> dir \<Rightarrow> KeyDir \<Rightarrow> (bytes \<times> merge_step_env) list \<Rightarrow>
   (error option \<times> AppendFile \<times> dir \<times> KeyDir) option" where
  "Merge_loop b mergeFile d newKeyDir [] = Some (None, mergeFile, d, newKeyDir)"
| "Merge_loop b mergeFile d newKeyDir ((key, env) # rest) =
     (case keyDir b key of
        None \<Rightarrow> Merge_loop b mergeFile d newKeyDir rest
      | Some rec \<Rightarrow>
          if FileId rec \<noteq> AppendFile_Name (activeFile b) then
            (case mergeWrite b d mergeFile key env of
               None \<Rightarrow> None
             | Some (Inl err, m1, d1) \<Rightarrow>
                 if \<not> isKeyNotExist err then Some (Some err, m1, d1, newKeyDir)
                 else Merge_loop b m1 d1 newKeyDir rest
             | Some (Inr newRec, m1, d1) \<Rightarrow>
                 Merge_loop b m1 d1 (newKeyDir(key \<mapsto> newRec)) rest)
          else Merge_loop b mergeFile d (newKeyDir(key \<mapsto> rec)) rest)"

text \<open>\<open>deleteOldFiles\<close> stops at the first file it cannot remove.\<close>

fun deleteOldFiles :: "dir \<Rightarrow> string list \<Rightarrow> error option \<times> dir" where
  "deleteOldFiles d [] = (None, d)"
| "deleteOldFiles d (file # files) =
     (case fst (os_Remove d file) of
        Some e \<Rightarrow> (Some (ErrOs e), snd (os_Remove d file))
      | None \<Rightarrow> deleteOldFiles (snd (os_Remove d file)) files)"

text \<open>\<open>Merge\<close>: the result of \<open>deleteOldFiles\<close> is dropped.\<close>

definition Merge :: "Bitcask \<Rightarrow> dir \<Rightarrow> merge_env \<Rightarrow> (error option \<times> Bitcask \<times> dir) option" where
  "Merge b d env =
     (if accessPermission (usrOpts b) = ReadOnly
      then Some (Some (ErrRequireWrite ''Merge''), b, d)
      else
        case listOldFiles b env of
          Inl err \<Rightarrow> Some (Some err, b, d)
        | Inr oldFiles \<Rightarrow>
            (case Merge_loop b (NewAppendFile Merge_type) d Map.empty (ranging env) of
               None \<Rightarrow> None
             | Some (Some err, m, d1, newKeyDir) \<Rightarrow> Some (Some err, b, d1)
             | Some (None, m, d1, newKeyDir) \<Rightarrow>
                 Some (None, b\<lparr>keyDir := newKeyDir\<rparr>, snd (deleteOldFiles d1 oldFiles))))"

definition Sync :: "Bitcask \<Rightarrow> dir \<Rightarrow> os_error option \<Rightarrow> error option \<times> Bitcask \<times> dir" where
  "Sync b d fault =
     (if accessPermission (usrOpts b) = ReadOnly then (Some (ErrRequireWrite ''Sync''), b, d)
      else (AppendFile_Sync (activeFile b) fault, b, d))"

subsection \<open>Sequences of operations\<close>

datatype op =
    OpGet bytes
  | OpPut bytes bytes put_env
  | OpDelete bytes put_env
  | OpMerge merge_env
  | OpSync "os_error option"

text \<open>The handle and the directory after one operation; \<open>None\<close> when it does not return.\<close>

fun exec :: "Bitcask \<times> dir \<Rightarrow> op \<Rightarrow> (Bitcask \<times> dir) option" where
  "exec (b, d) (OpGet key) = map_option (\<lambda>r. (b, d)) (Get b d key)"
| "exec (b, d) (OpPut key val env) = Some (snd (Put b d key val env))"
| "exec (b, d) (OpDelete key env) = map_option snd (Delete b d key env)"
| "exec (b, d) (OpMerge env) = map_option snd (Merge b d env)"
| "exec (b, d) (OpSync fault) = Some (snd (Sync b d fault))"

fun run :: "Bitcask \<times> dir \<Rightarrow> op list \<Rightarrow> (Bitcask \<times> dir) option" where
  "run s [] = Some s"
| "run s (x # xs) = (case exec s x of None \<Rightarrow> None | Some s' \<Rightarrow> run s' xs)"

section \<open>Package keydir: the index from the persisted snapshot\<close>

text \<open>
  What \<open>keyDirFileBuild\<close> and \<open>isOld\<close> see of the datastore directory: the files, the
  modification time of the directory and of each file, and the files that cannot be
  read.  The directory itself exists: the engine has opened it before.
\<close>

record datastore =
  files :: dir
  dirModTime :: int
  modTime :: "string \<Rightarrow> int"
  unreadable :: "string \<Rightarrow> bool"

definition os_ReadFile :: "datastore \<Rightarrow> string \<Rightarrow> os_error + bytes" where
  "os_ReadFile ds n =
     (case files ds n of
        None \<Rightarrow> Inl ENOENT
      | Some c \<Rightarrow> if unreadable ds n then Inl EACCES else Inr c)"

definition os_Stat :: "datastore \<Rightarrow> string \<Rightarrow> os_error + int" where
  "os_Stat ds n = (case files ds n of None \<Rightarrow> Inl ENOENT | Some c \<Rightarrow> Inr (modTime ds n))"

definition keyDirFile :: string where
  "keyDirFile = ''keydir''"

text \<open>\<open>isOld\<close>: \<open>keydirStat.ModTime().Before(dataStoreStat.ModTime())\<close>.\<close>

definition isOld :: "datastore \<Rightarrow> bool \<times> os_error option" where
  "isOld ds =
     (case os_Stat ds ''keydir'' of
        Inl err \<Rightarrow> (False, Some err)
      | Inr keydirModTime \<Rightarrow> (keydirModTime < dirModTime ds, None))"

text \<open>
  The decoding loop of \<open>keyDirFileBuild\<close>.  The capacity of \<open>data[i:]\<close> is taken to be
  its length.
\<close>

function keyDirFile_loop :: "KeyDir \<Rightarrow> bytes \<Rightarrow> nat \<Rightarrow> error + KeyDir" where
  "keyDirFile_loop k data i =
     (if i < length data then
        (case ExtractKeyDirRec (drop i data) of
           Inl err \<Rightarrow> Inl err
         | Inr r \<Rightarrow> keyDirFile_loop (k(fst r \<mapsto> fst (snd r))) data (i + snd (snd r)))
      else Inr k)"
  by pat_completeness auto
termination
  by (relation "measure (\<lambda>(k, data, i). length data - i)")
    (auto simp: ExtractKeyDirRec_def keyDirFileHdr_def Let_def split: if_splits)

text \<open>
  \<open>keyDirFileBuild\<close>: the index it was given, filled from the snapshot when it answers
  \<open>True\<close>.  \<open>okay\<close> is the answer of \<open>isOld\<close>.
\<close>

definition keyDirFileBuild :: "KeyDir \<Rightarrow> datastore \<Rightarrow> error + (bool \<times> KeyDir)" where
  "keyDirFileBuild k ds =
     (case os_ReadFile ds keyDirFile of
        Inl err \<Rightarrow> if err = ENOENT then Inr (False, k) else Inl (ErrOs err)
      | Inr data \<Rightarrow>
          let okay = fst (isOld ds);
              err = snd (isOld ds)
          in if err \<noteq> None \<or> \<not> okay then Inr (False, k)
             else
               (case keyDirFile_loop k data 0 of
                  Inl e \<Rightarrow> Inl e
                | Inr k' \<Rightarrow> Inr (True, k')))"

section \<open>Concrete settings used in the examples\<close>

text \<open>An operating system that does as asked, with the clock at \<open>t\<close>.\<close>

definition quiet :: "64 word \<Rightarrow> append_env" where
  "quiet t =
     \<lparr>clock = t, close_data = None, close_hint = None, open_data = None, open_hint = None,
      writes = []\<rparr>"

text \<open>An operating system on which every write fails without writing an octet.\<close>

definition disk_full :: "64 word \<Rightarrow> append_env" where
  "disk_full t =
     \<lparr>clock = t, close_data = None, close_hint = None, open_data = None, open_hint = None,
      writes = replicate 6 (WShort 0 EIO)\<rparr>"

text \<open>The handle that \<open>Open\<close> returns on an empty directory.\<close>

definition fresh :: "ConfigOpt list \<Rightarrow> Bitcask" where
  "fresh opts =
     \<lparr>keyDir = Map.empty, usrOpts = parseUsrOpts opts, activeFile = NewAppendFile Active_type\<rparr>"

text \<open>A directory whose snapshot holds one entry and is older (newer) than the
  directory.\<close>

definition snapshot_dir :: "int \<Rightarrow> int \<Rightarrow> datastore" where
  "snapshot_dir tk td =
     \<lparr>files = [''keydir'' \<mapsto>
        CompressKeyDirRec ''k'' \<lparr>FileId = ''7'', ValuePos = 0, ValueSize = 1, Tstamp = 1\<rparr>],
      dirModTime = td, modTime = (\<lambda>n. tk), unreadable = (\<lambda>n. False)\<rparr>"

text \<open>One \<open>Put\<close> or \<open>Delete\<close> at time \<open>t\<close> on an operating system that does as asked (whose
  disk is full), with the clock at \<open>c\<close> should a segment be made.\<close>

definition calm :: "64 word \<Rightarrow> 64 word \<Rightarrow> put_env" where
  "calm t c = \<lparr>put_now = t, put_os = quiet c\<rparr>"

definition failing :: "64 word \<Rightarrow> 64 word \<Rightarrow> put_env" where
  "failing t c = \<lparr>put_now = t, put_os = disk_full c\<rparr>"

text \<open>The handle and the directory after \<open>Put(key, val)\<close> on a new datastore.\<close>

definition after_put :: "bytes \<Rightarrow> bytes \<Rightarrow> Bitcask \<times> dir" where
  "after_put key val = snd (Put (fresh [ReadWrite]) Map.empty key val (calm 1 2))"

text \<open>Keys of 65536 and of 65518 octets.\<close>

definition key_65536 :: bytes where
  "key_65536 = replicate 65536 (CHR ''x'')"

definition key_65518 :: bytes where
  "key_65518 = replicate 65518 (CHR ''x'')"

text \<open>
  A handle just opened on a directory with one segment, \<open>1.data\<close>, that holds the
  record of \<open>k\<close> and \<open>v\<close>; and a \<open>Merge\<close> of it on a well-behaved operating system.
\<close>

definition reopened :: "Bitcask \<times> dir" where
  "reopened =
     (\<lparr>keyDir = [''k'' \<mapsto> \<lparr>FileId = ''1.data'', ValuePos = 0, ValueSize = 1, Tstamp = 5\<rparr>],
       usrOpts = parseUsrOpts [ReadWrite], activeFile = NewAppendFile Active_type\<rparr>,
      [''1.data'' \<mapsto> CompressDataFileRec ''k'' ''v'' 5])"

definition merge_once :: merge_env where
  "merge_once =
     \<lparr>readdir = Inr [''1.data''],
      ranging = [(''k'', \<lparr>step_now = 9, step_os = quiet 9, step_hint = []\<rparr>)]\<rparr>"

text \<open>
  A handle whose active segment \<open>1.data\<close> holds the tombstone record of \<open>k\<close>, as after
  \<open>Put(k, tombstone)\<close> or, behind other records, after \<open>Delete(k)\<close>.
\<close>

definition deleted_in_active :: "Bitcask \<times> dir" where
  "deleted_in_active =
     (\<lparr>keyDir = [''k'' \<mapsto> \<lparr>FileId = ''1.data'', ValuePos = 0, ValueSize = 64, Tstamp = 5\<rparr>],
       usrOpts = parseUsrOpts [ReadWrite],
       activeFile =
         \<lparr>fileWrapper = Some \<lparr>fname = ''1.data'', foffset = 83, fclosed = False\<rparr>,
          hintWrapper = None, fileName = ''1.data'', appendType = Active_type,
          currentPos = 83, currentSize = 83\<rparr>\<rparr>,
      [''1.data'' \<mapsto> CompressDataFileRec ''k'' TompStone 5])"

section \<open>Well-formed states and well-behaved environments\<close>

text \<open>A key and a value whose record the codec handles (see the round trip below).\<close>

definition fits :: "bytes \<Rightarrow> bytes \<Rightarrow> bool" where
  "fits key val = (18 + length key < 2 ^ 16 \<and> 18 + length key + length val < 2 ^ 32)"

text \<open>The index entry \<open>rec\<close> of \<open>key\<close> points at an encoded record of \<open>key\<close> and \<open>val\<close> in its
  segment.\<close>

definition entry_holds :: "dir \<Rightarrow> bytes \<Rightarrow> KeyDirRec \<Rightarrow> bytes \<Rightarrow> bool" where
  "entry_holds d key rec val =
     (case d (FileId rec) of
        None \<Rightarrow> False
      | Some c \<Rightarrow>
          fits key val \<and> KeyDirRec.ValueSize rec = word_of_nat (length val) \<and>
          unat (ValuePos rec) + (18 + length key + length val) \<le> length c \<and>
          (\<exists>t. slice c (unat (ValuePos rec)) (unat (ValuePos rec) + (18 + length key + length val))
                 = CompressDataFileRec key val t))"

definition index_ok :: "KeyDir \<Rightarrow> dir \<Rightarrow> bool" where
  "index_ok kd d = (\<forall>key rec. kd key = Some rec \<longrightarrow> (\<exists>val. entry_holds d key rec val))"

text \<open>
  A segment writer in step with the directory: its open data file is the file it
  names, the file offset and both positions are the size of that file, and in merge
  mode its hint file is open, another file, with the offset at its end.
\<close>

definition writer_ok :: "AppendFile \<Rightarrow> dir \<Rightarrow> bool" where
  "writer_ok a d =
     (case fileWrapper a of
        None \<Rightarrow> True
      | Some f \<Rightarrow>
          \<not> fclosed f \<and> fname f = fileName a \<and>
          (case d (fileName a) of
             None \<Rightarrow> False
           | Some c \<Rightarrow> foffset f = length c \<and> currentPos a = length c \<and> currentSize a = length c) \<and>
          (appendType a = Merge_type \<longrightarrow>
             (case hintWrapper a of
                None \<Rightarrow> False
              | Some h \<Rightarrow>
                  \<not> fclosed h \<and> fname h \<noteq> fileName a \<and>
                  (case d (fname h) of None \<Rightarrow> False | Some ch \<Rightarrow> foffset h = length ch))))"

text \<open>A read-write handle in step with the directory; no file has the empty name.\<close>

definition engine_ok :: "Bitcask \<Rightarrow> dir \<Rightarrow> bool" where
  "engine_ok b d =
     (accessPermission (usrOpts b) = ReadWrite \<and> appendType (activeFile b) = Active_type \<and>
      writer_ok (activeFile b) d \<and> index_ok (keyDir b) d \<and> [] \<notin> dom d)"

text \<open>The operating system reports no fault: the first write takes all the octets.\<close>

fun ok_writes :: "wresp list \<Rightarrow> bool" where
  "ok_writes (WShort m e # rs) = False"
| "ok_writes rs = True"

definition no_faults :: "append_env \<Rightarrow> bool" where
  "no_faults env =
     (close_data env = None \<and> close_hint env = None \<and> open_data env = None \<and>
      open_hint env = None \<and> ok_writes (writes env))"

definition data_name :: "append_env \<Rightarrow> string" where
  "data_name env = FormatInt (clock env) @ ''.data''"

definition hint_name :: "append_env \<Rightarrow> string" where
  "hint_name env = FormatInt (clock env) @ ''.hint''"

text \<open>No fault, and the clock gives a segment name that is not in use.\<close>

definition nominal_append :: "dir \<Rightarrow> append_env \<Rightarrow> bool" where
  "nominal_append d env =
     (no_faults env \<and> data_name env \<notin> dom d \<and> hint_name env \<notin> dom d)"

text \<open>
  A well-behaved \<open>Merge\<close>: the directory is read without error and lists its files, the
  index is ranged over key by key, each key once, no append meets a fault, and the
  clock gives every append a segment name of its own that is not in use.
\<close>

definition nominal_merge :: "Bitcask \<Rightarrow> dir \<Rightarrow> merge_env \<Rightarrow> bool" where
  "nominal_merge b d env =
     ((case readdir env of Inl e \<Rightarrow> False | Inr ls \<Rightarrow> set ls = dom d) \<and>
      distinct (map fst (ranging env)) \<and>
      set (map fst (ranging env)) = dom (keyDir b) \<and>
      distinct (map (\<lambda>s. data_name (step_os (snd s))) (ranging env)) \<and>
      list_all (\<lambda>s. nominal_append d (step_os (snd s)) \<and> ok_writes (step_hint (snd s)))
        (ranging env))"

fun nominal_op :: "Bitcask \<times> dir \<Rightarrow> op \<Rightarrow> bool" where
  "nominal_op (b, d) (OpPut key val env) = (fits key val \<and> nominal_append d (put_os env))"
| "nominal_op (b, d) (OpDelete key env) = nominal_append d (put_os env)"
| "nominal_op (b, d) (OpMerge env) = nominal_merge b d env"
| "nominal_op (b, d) x = True"

text \<open>Every operation of the sequence is well behaved in the state it starts from (nothing
  is asked of what follows an operation that does not return).\<close>

fun nominal_run :: "Bitcask \<times> dir \<Rightarrow> op list \<Rightarrow> bool" where
  "nominal_run s [] = True"
| "nominal_run s (x # xs) =
     (nominal_op s x \<and> (case exec s x of None \<Rightarrow> True | Some s' \<Rightarrow> nominal_run s' xs))"

fun puts_key :: "bytes \<Rightarrow> op \<Rightarrow> bool" where
  "puts_key k (OpPut key val env) = (key = k)"
| "puts_key k x = False"

fun writes_key :: "bytes \<Rightarrow> op \<Rightarrow> bool" where
  "writes_key k (OpPut key val env) = (key = k)"
| "writes_key k (OpDelete key env) = (key = k)"
| "writes_key k x = False"

text \<open>What \<open>Get\<close> answers for each key: the value, or nothing for any error.\<close>

definition contents :: "Bitcask \<Rightarrow> dir \<Rightarrow> bytes \<rightharpoonup> bytes" where
  "contents b d = (\<lambda>key. case Get b d key of Some (Inr v) \<Rightarrow> Some v | _ \<Rightarrow> None)"

text \<open>The store as a plain map, in the words of the specification: \<open>Put\<close> binds, \<open>Delete\<close>
  unbinds, a value equal to the tombstone counts as deleted.\<close>

fun spec_op :: "(bytes \<rightharpoonup> bytes) \<Rightarrow> op \<Rightarrow> (bytes \<rightharpoonup> bytes)" where
  "spec_op m (OpPut key val env) = (if val = TompStone then m(key := None) else m(key \<mapsto> val))"
| "spec_op m (OpDelete key env) = m(key := None)"
| "spec_op m x = m"

subsection \<open>Sequences of \<open>WriteData\<close> calls on one segment writer\<close>

type_synonym append_call = "bytes \<times> bytes \<times> 64 word \<times> append_env"

fun appends :: "AppendFile \<times> dir \<Rightarrow> append_call list \<Rightarrow> AppendFile \<times> dir" where
  "appends s [] = s"
| "appends (a, d) ((key, val, tstamp, env) # calls) =
     appends (snd (WriteData a d key val tstamp env)) calls"

fun nominal_appends :: "AppendFile \<times> dir \<Rightarrow> append_call list \<Rightarrow> bool" where
  "nominal_appends s [] = True"
| "nominal_appends (a, d) ((key, val, tstamp, env) # calls) =
     (nominal_append d env \<and> nominal_appends (snd (WriteData a d key val tstamp env)) calls)"

text \<open>The record a call appends, and the directory once \<open>newAppendFile\<close> has made the
  files of a new segment.\<close>

definition record_of :: "append_call \<Rightarrow> bytes" where
  "record_of call = CompressDataFileRec (fst call) (fst (snd call)) (fst (snd (snd call)))"

definition minted :: "AppendFile \<Rightarrow> dir \<Rightarrow> append_env \<Rightarrow> dir" where
  "minted a d env =
     (if appendType a = Merge_type then d(data_name env \<mapsto> [], hint_name env \<mapsto> [])
      else d(data_name env \<mapsto> []))"

text \<open>The directory \<open>d'\<close> keeps every file of \<open>d\<close>, possibly longer at its end.\<close>

definition extends :: "dir \<Rightarrow> dir \<Rightarrow> bool" where
  "extends d d' = (\<forall>f c. d f = Some c \<longrightarrow> (\<exists>x. d' f = Some (c @ x)))"

text \<open>The files a segment writer has open are not among the files \<open>D\<close>.\<close>

definition writer_outside :: "string set \<Rightarrow> AppendFile \<Rightarrow> bool" where
  "writer_outside D a =
     (fileWrapper a \<noteq> None \<longrightarrow>
        fileName a \<notin> D \<and> (case hintWrapper a of None \<Rightarrow> True | Some h \<Rightarrow> fname h \<notin> D))"

text \<open>
  What the merge loop has done for the key \<open>k\<close> once it has ranged over it: \<open>d0\<close> is the
  directory when \<open>Merge\<close> starts, \<open>d'\<close> the directory and \<open>new'\<close> the new index after the
  loop, \<open>new\<close> the new index before.
\<close>

definition merged_key :: "Bitcask \<Rightarrow> dir \<Rightarrow> dir \<Rightarrow> KeyDir \<Rightarrow> KeyDir \<Rightarrow> bytes \<Rightarrow> bool" where
  "merged_key b d0 d' new new' k =
     (case keyDir b k of
        None \<Rightarrow> new' k = new k
      | Some r \<Rightarrow>
          if FileId r = fileName (activeFile b) then new' k = Some r
          else if entry_holds d0 k r TompStone then new' k = new k
          else (\<exists>r' v. entry_holds d0 k r v \<and> new' k = Some r' \<and> FileId r' \<notin> dom d0 \<and>
                  entry_holds d' k r' v))"

section \<open>The record codec: properties\<close>

subsection \<open>Little-endian fields and the layout of an encoded data record\<close>

lemma length_le_bytes [simp]: "length (le_bytes k n) = k"
  by (induction k arbitrary: n) auto

lemma nat_of_byte_of_nat [simp]: "nat_of_byte (byte_of_nat n) = n mod 256"
  by (simp add: nat_of_byte_def byte_of_nat_def)

lemma le_nat_le_bytes: "le_nat (le_bytes k n) = n mod 256 ^ k"
proof (induction k arbitrary: n)
  case 0
  then show ?case by simp
next
  case (Suc k)
  have "n mod 256 + 256 * (n div 256 mod 256 ^ k) = n mod (256 * 256 ^ k)"
    by (simp add: mod_mult2_eq)
  with Suc show ?case by simp
qed

lemma length_copy_at [simp]: "off \<le> length buf \<Longrightarrow> length (copy_at buf off src) = length buf"
  by (auto simp: copy_at_def)

lemma copy_at_append:
  "length a = off \<Longrightarrow> length src \<le> length b \<Longrightarrow>
   copy_at (a @ b) off src = a @ src @ drop (length src) b"
  by (simp add: copy_at_def)

lemma make_bytes_split: "make_bytes (a + b) = make_bytes a @ make_bytes b"
  by (simp add: make_bytes_def replicate_add)

lemma make_bytes_0 [simp]: "make_bytes 0 = []"
  by (simp add: make_bytes_def)

lemma length_make_bytes [simp]: "length (make_bytes n) = n"
  by (simp add: make_bytes_def)

lemma drop_make_bytes [simp]: "drop k (make_bytes n) = make_bytes (n - k)"
  by (simp add: make_bytes_def)

lemma Compress_concat:
  "CompressDataFileRec key val tstamp =
     le_bytes 4 (unat (ChecksumIEEE (data_body key val tstamp))) @ data_body key val tstamp"
proof -
  let ?n = "length key + length val"
  have b0: "make_bytes (DataFileRecHdr + length key + length val)
      = make_bytes 4 @ make_bytes (14 + ?n)"
    by (simp add: DataFileRecHdr_def make_bytes_split [symmetric] add.assoc)
  have b1: "PutUint64 (make_bytes 4 @ make_bytes (14 + ?n)) 4 tstamp
      = make_bytes 4 @ le_bytes 8 (unat tstamp) @ make_bytes (6 + ?n)"
    by (simp add: PutUint64_def copy_at_append)
  have b2: "PutUint16 (make_bytes 4 @ le_bytes 8 (unat tstamp) @ make_bytes (6 + ?n)) 12 w
      = make_bytes 4 @ le_bytes 8 (unat tstamp) @ le_bytes 2 (unat w) @ make_bytes (4 + ?n)" for w :: "16 word"
    using copy_at_append [of "make_bytes 4 @ le_bytes 8 (unat tstamp)" 12 "le_bytes 2 (unat w)" "make_bytes (6 + ?n)"]
    by (simp add: PutUint16_def)
  have b3: "PutUint32 (make_bytes 4 @ le_bytes 8 (unat tstamp) @ le_bytes 2 (unat w) @ make_bytes (4 + ?n)) 14 v
      = make_bytes 4 @ le_bytes 8 (unat tstamp) @ le_bytes 2 (unat w) @ le_bytes 4 (unat v) @ make_bytes ?n" for w :: "16 word" and v :: "32 word"
    using copy_at_append [of "make_bytes 4 @ le_bytes 8 (unat tstamp) @ le_bytes 2 (unat w)" 14 "le_bytes 4 (unat v)" "make_bytes (4 + ?n)"]
    by (simp add: PutUint32_def)
  have b4: "copy_at (make_bytes 4 @ le_bytes 8 (unat tstamp) @ le_bytes 2 (unat w) @ le_bytes 4 (unat v) @ make_bytes ?n) DataFileRecHdr key
      = make_bytes 4 @ le_bytes 8 (unat tstamp) @ le_bytes 2 (unat w) @ le_bytes 4 (unat v) @ key @ make_bytes (length val)" for w :: "16 word" and v :: "32 word"
    using copy_at_append [of "make_bytes 4 @ le_bytes 8 (unat tstamp) @ le_bytes 2 (unat w) @ le_bytes 4 (unat v)" 18 key "make_bytes ?n"]
    by (simp add: DataFileRecHdr_def)
  have b5: "copy_at (make_bytes 4 @ le_bytes 8 (unat tstamp) @ le_bytes 2 (unat w) @ le_bytes 4 (unat v) @ key @ make_bytes (length val)) (DataFileRecHdr + length key) val
      = make_bytes 4 @ le_bytes 8 (unat tstamp) @ le_bytes 2 (unat w) @ le_bytes 4 (unat v) @ key @ val" for w :: "16 word" and v :: "32 word"
    using copy_at_append [of "make_bytes 4 @ le_bytes 8 (unat tstamp) @ le_bytes 2 (unat w) @ le_bytes 4 (unat v) @ key" "18 + length key" val "make_bytes (length val)"]
    by (simp add: DataFileRecHdr_def)
  have b6: "PutUint32 (make_bytes 4 @ body) 0 c = le_bytes 4 (unat c) @ body" for body and c :: "32 word"
    using copy_at_append [of "[]" 0 "le_bytes 4 (unat c)" "make_bytes 4 @ body"]
    by (simp add: PutUint32_def)
  show ?thesis
    unfolding CompressDataFileRec_def Let_def b0 b1 b2 b3 b4 b5
    by (simp add: b6 data_body_def)
qed


lemma slice_field:
  "length a = off \<Longrightarrow> length f = w \<Longrightarrow> slice (a @ f @ rest) off (off + w) = f"
  by (simp add: slice_def)

lemma slice_field0: "length f = w \<Longrightarrow> slice (f @ rest) 0 w = f"
  by (simp add: slice_def)

lemma word16_le: "word_of_nat (unat (x :: 16 word) mod 256 ^ 2) = x"
proof -
  have "unat x < 256 ^ 2" using unsigned_less [of x] by simp
  then show ?thesis by simp
qed

lemma word32_le: "word_of_nat (unat (x :: 32 word) mod 256 ^ 4) = x"
proof -
  have "unat x < 256 ^ 4" using unsigned_less [of x] by simp
  then show ?thesis by simp
qed

lemma word64_le: "word_of_nat (unat (x :: 64 word) mod 256 ^ 8) = x"
proof -
  have "unat x < 256 ^ 8" using unsigned_less [of x] by simp
  then show ?thesis by simp
qed

lemma Uint32_at:
  assumes "length a = off"
  shows "Uint32 (a @ le_bytes 4 (unat x) @ rest) off = x"
proof -
  have "slice (a @ le_bytes 4 (unat x) @ rest) off (off + 4) = le_bytes 4 (unat x)"
    by (rule slice_field [OF assms length_le_bytes])
  then show ?thesis by (simp only: Uint32_def le_nat_le_bytes word32_le)
qed

lemma Uint16_at:
  assumes "length a = off"
  shows "Uint16 (a @ le_bytes 2 (unat x) @ rest) off = x"
proof -
  have "slice (a @ le_bytes 2 (unat x) @ rest) off (off + 2) = le_bytes 2 (unat x)"
    by (rule slice_field [OF assms length_le_bytes])
  then show ?thesis by (simp only: Uint16_def le_nat_le_bytes word16_le)
qed

lemma Uint64_at:
  assumes "length a = off"
  shows "Uint64 (a @ le_bytes 8 (unat x) @ rest) off = x"
proof -
  have "slice (a @ le_bytes 8 (unat x) @ rest) off (off + 8) = le_bytes 8 (unat x)"
    by (rule slice_field [OF assms length_le_bytes])
  then show ?thesis by (simp only: Uint64_def le_nat_le_bytes word64_le)
qed

lemma length_data_body [simp]:
  "length (data_body key val tstamp) = 14 + length key + length val"
  by (simp add: data_body_def)

lemma length_Compress [simp]:
  "length (CompressDataFileRec key val tstamp) = 18 + length key + length val"
  by (simp add: Compress_concat)

lemma Compress_sum: "Uint32 (CompressDataFileRec key val tstamp) 0
    = ChecksumIEEE (data_body key val tstamp)"
  using Uint32_at [of "[]" 0] by (simp add: Compress_concat)

lemma Compress_tstamp: "Uint64 (CompressDataFileRec key val tstamp) 4 = tstamp"
  unfolding Compress_concat data_body_def by (rule Uint64_at) simp

lemma Compress_keySize:
  "Uint16 (CompressDataFileRec key val tstamp) 12 = word_of_nat (length key)"
proof -
  have "Uint16 ((le_bytes 4 c @ le_bytes 8 t) @ le_bytes 2 (unat x) @ rest) 12 = x" for c t x rest
    by (rule Uint16_at) simp
  then show ?thesis by (simp add: Compress_concat data_body_def)
qed

lemma Compress_valueSize:
  "Uint32 (CompressDataFileRec key val tstamp) 14 = word_of_nat (length val)"
proof -
  have "Uint32 ((le_bytes 4 c @ le_bytes 8 t @ le_bytes 2 k) @ le_bytes 4 (unat x) @ rest) 14 = x"
    for c t k x rest
    by (rule Uint32_at) simp
  then show ?thesis by (simp add: Compress_concat data_body_def)
qed

lemma Compress_drop4: "drop 4 (CompressDataFileRec key val tstamp) = data_body key val tstamp"
  by (simp add: Compress_concat)

lemma Compress_key:
  "slice (CompressDataFileRec key val tstamp) 18 (18 + length key) = key"
  using slice_field [of "le_bytes 4 c @ le_bytes 8 t @ le_bytes 2 k @ le_bytes 4 v" 18 key "length key" val for c t k v]
  by (simp add: Compress_concat data_body_def)

lemma Compress_val:
  "slice (CompressDataFileRec key val tstamp) (18 + length key) (18 + length key + length val) = val"
  using slice_field [of "le_bytes 4 c @ le_bytes 8 t @ le_bytes 2 k @ le_bytes 4 v @ key" "18 + length key" val "length val" "[]" for c t k v]
  by (simp add: Compress_concat data_body_def)

lemma Compress_body:
  "slice (CompressDataFileRec key val tstamp) 4 (18 + length key + length val) = data_body key val tstamp"
  by (simp add: slice_def Compress_drop4)

lemma unat_of_nat16: "n < 2 ^ 16 \<Longrightarrow> unat (word_of_nat n :: 16 word) = n"
  by (simp add: unat_of_nat)

lemma unat_of_nat32: "n < 2 ^ 32 \<Longrightarrow> unat (word_of_nat n :: 32 word) = n"
  by (simp add: unat_of_nat)

lemma ucast_of_nat16: "n < 2 ^ 16 \<Longrightarrow> (ucast (word_of_nat n :: 16 word) :: 32 word) = word_of_nat n"
  using of_nat_unat [of "word_of_nat n :: 16 word", where 'a = "32 word"]
  by (simp only: unat_of_nat16)

lemma Extract_Compress:
  assumes k: "18 + length key < 2 ^ 16" and v: "18 + length key + length val < 2 ^ 32"
  shows "ExtractDataFileRec (CompressDataFileRec key val tstamp) =
     Inr (\<lparr>Key = key, Value = val, Tstamp = tstamp,
           KeySize = word_of_nat (length key), ValueSize = word_of_nat (length val)\<rparr>,
          word_of_nat (18 + length key + length val))"
proof -
  have k': "length key < 2 ^ 16" and v': "18 + length key < 2 ^ 32"
    using k v by simp_all
  have ke: "(word_of_nat DataFileRecHdr + word_of_nat (length key) :: 16 word)
      = word_of_nat (18 + length key)"
    by (simp add: DataFileRecHdr_def)
  have ve: "(word_of_nat (18 + length key) + word_of_nat (length val) :: 32 word)
      = word_of_nat (18 + length key + length val)"
    by simp
  have se: "(word_of_nat DataFileRecHdr + word_of_nat (length key) + word_of_nat (length val) :: 32 word)
      = word_of_nat (18 + length key + length val)"
    by (simp add: DataFileRecHdr_def)
  have le: "(word_of_nat DataFileRecHdr + word_of_nat (length val) + word_of_nat (length key) :: 32 word)
      = word_of_nat (18 + length key + length val)"
    by (simp add: DataFileRecHdr_def)
  show ?thesis
    unfolding ExtractDataFileRec_def Let_def Compress_sum Compress_tstamp Compress_keySize
      Compress_valueSize ke ucast_of_nat16 [OF k] ucast_of_nat16 [OF k'] ve se le
      unat_of_nat16 [OF k] unat_of_nat32 [OF v] unat_of_nat32 [OF v']
    by (simp add: DataFileRecHdr_def Compress_key Compress_val Compress_body validateCheckSum_def)
qed

lemma Extract_Compress_key_wraps:
  assumes lo: "65518 \<le> length key" and hi: "length key < 65536"
  shows "ExtractDataFileRec (CompressDataFileRec key val tstamp) = Inl Panic"
proof -
  have "unat (word_of_nat (18 + length key) :: 16 word) = (18 + length key) mod 65536"
    by (simp only: unat_of_nat) simp
  also have "\<dots> = 18 + length key - 65536"
    using lo hi by (simp add: mod_if)
  finally have "unat (word_of_nat (18 + length key) :: 16 word) < 18"
    using hi by simp
  moreover have "(word_of_nat DataFileRecHdr + word_of_nat (length key) :: 16 word)
      = word_of_nat (18 + length key)"
    by (simp add: DataFileRecHdr_def)
  ultimately show ?thesis
    unfolding ExtractDataFileRec_def Let_def Compress_keySize
    by (simp add: DataFileRecHdr_def)
qed

lemma Extract_Compress_value_wraps:
  assumes k: "18 + length key < 2 ^ 16" and lo: "2 ^ 32 \<le> 18 + length key + length val"
    and hi: "length val < 2 ^ 32"
  shows "ExtractDataFileRec (CompressDataFileRec key val tstamp) = Inl Panic"
proof -
  have k': "length key < 2 ^ 16" and v': "18 + length key < 2 ^ 32"
    using k by simp_all
  have ke: "(word_of_nat DataFileRecHdr + word_of_nat (length key) :: 16 word)
      = word_of_nat (18 + length key)"
    by (simp add: DataFileRecHdr_def)
  have ve: "(word_of_nat (18 + length key) + word_of_nat (length val) :: 32 word)
      = word_of_nat (18 + length key + length val)"
    by simp
  have "unat (word_of_nat (18 + length key + length val) :: 32 word)
      = (18 + length key + length val) mod 4294967296"
    by (simp only: unat_of_nat) simp
  also have "\<dots> = 18 + length key + length val - 4294967296"
    using lo hi k by (simp add: mod_if)
  finally have wrap: "unat (word_of_nat (18 + length key + length val) :: 32 word) < 18 + length key"
    using hi by simp
  show ?thesis
    unfolding ExtractDataFileRec_def Let_def Compress_keySize Compress_valueSize ke
      ucast_of_nat16 [OF k] ve unat_of_nat16 [OF k] unat_of_nat32 [OF v']
    using wrap k by (simp add: DataFileRecHdr_def)
qed

text \<open>
  Claim C5, as amended.  For every key and value with \<open>18 + len(key) < 2^16\<close> and
  \<open>18 + len(key) + len(value) < 2^32\<close>, and every timestamp, decoding the buffer
  produced by the data-record encoder succeeds (so the checksum matched) and returns
  exactly the original key, value and timestamp, and the reported record length is
  \<open>18 + len(key) + len(value)\<close>.
\<close>

theorem data_record_round_trip:
  assumes "18 + length key < 2 ^ 16" and "18 + length key + length val < 2 ^ 32"
  shows "ExtractDataFileRec (CompressDataFileRec key val tstamp) =
           Inr (\<lparr>Key = key, Value = val, Tstamp = tstamp,
                 KeySize = word_of_nat (length key), ValueSize = word_of_nat (length val)\<rparr>,
                word_of_nat (18 + length key + length val))
         \<and> unat (word_of_nat (18 + length key + length val) :: 32 word)
             = 18 + length key + length val
         \<and> validateCheckSum (Uint32 (CompressDataFileRec key val tstamp) 0)
              (slice (CompressDataFileRec key val tstamp) 4 (18 + length key + length val))
             = None"
  using assms
  by (simp only: Extract_Compress unat_of_nat32 Compress_sum Compress_body validateCheckSum_def)
     simp

theorem data_record_round_trip_witness:
  "ExtractDataFileRec (CompressDataFileRec ''key12'' ''value12345'' 1700000000000000) =
     Inr (\<lparr>Key = ''key12'', Value = ''value12345'', Tstamp = 1700000000000000,
           KeySize = 5, ValueSize = 10\<rparr>, 33)"
  using data_record_round_trip [of "''key12''" "''value12345''" 1700000000000000]
  by simp

text \<open>
  Claim C5 as stated fails at both ends of its range.  A value of \<open>2^32 - 18\<close> octets
  under the empty key: \<open>valueOffset + valueSize\<close> is a \<open>uint32\<close> sum and wraps to 0, so
  the slice \<open>buf[18:0]\<close> panics (and no \<open>uint32\<close> could report the length \<open>2^32\<close>).
  A key of 65518 octets: \<open>DataFileRecHdr + keySize\<close> is a \<open>uint16\<close> sum and wraps to 0,
  and the slice panics likewise.
\<close>

theorem data_record_round_trip_counterexample:
  "ExtractDataFileRec (CompressDataFileRec [] (replicate 4294967278 (CHR ''v'')) 0) = Inl Panic
   \<and> ExtractDataFileRec (CompressDataFileRec (replicate 65518 (CHR ''k'')) [] 0) = Inl Panic"
proof
  show "ExtractDataFileRec (CompressDataFileRec [] (replicate 4294967278 (CHR ''v'')) 0) = Inl Panic"
    by (rule Extract_Compress_value_wraps) simp_all
  show "ExtractDataFileRec (CompressDataFileRec (replicate 65518 (CHR ''k'')) [] 0) = Inl Panic"
    by (rule Extract_Compress_key_wraps) simp_all
qed

subsection \<open>Index snapshot records\<close>

text \<open>
  Claim C4 at the entry that \<open>Put\<close> stores for a record in the segment \<open>1.data\<close>: the
  file id is the file name, \<open>ParseUint\<close> rejects it, the encoder stores 0, and the
  decoder gives back the file id \<open>0\<close>, which names no segment of the directory.
\<close>

theorem keydir_record_loses_file_id:
  "ExtractKeyDirRec
     (CompressKeyDirRec ''k'' \<lparr>FileId = ''1.data'', ValuePos = 0, ValueSize = 1, Tstamp = 1\<rparr>)
   = Inr (''k'', \<lparr>FileId = ''0'', ValuePos = 0, ValueSize = 1, Tstamp = 1\<rparr>, 27)"
  by code_simp

section \<open>The snapshot on open\<close>

text \<open>
  Claim C2 at a directory modified at time 2 whose snapshot was written at time 1, so
  is out of date, and at one whose snapshot was written at time 3: the code takes the
  index from the older snapshot and ignores the newer one.
\<close>

theorem keyDirFileBuild_takes_the_older_snapshot:
  "keyDirFileBuild Map.empty (snapshot_dir 1 2) =
     Inr (True, [''k'' \<mapsto> \<lparr>FileId = ''7'', ValuePos = 0, ValueSize = 1, Tstamp = 1\<rparr>])
   \<and> keyDirFileBuild Map.empty (snapshot_dir 3 2) = Inr (False, Map.empty)"
proof
  have dec: "ExtractKeyDirRec
      (CompressKeyDirRec ''k'' \<lparr>FileId = ''7'', ValuePos = 0, ValueSize = 1, Tstamp = 1\<rparr>)
     = Inr (''k'', \<lparr>FileId = ''7'', ValuePos = 0, ValueSize = 1, Tstamp = 1\<rparr>, 27)"
    by code_simp
  have len: "length
      (CompressKeyDirRec ''k'' \<lparr>FileId = ''7'', ValuePos = 0, ValueSize = 1, Tstamp = 1\<rparr>) = 27"
    by code_simp
  show "keyDirFileBuild Map.empty (snapshot_dir 1 2) =
     Inr (True, [''k'' \<mapsto> \<lparr>FileId = ''7'', ValuePos = 0, ValueSize = 1, Tstamp = 1\<rparr>])"
    by (simp add: keyDirFileBuild_def snapshot_dir_def os_ReadFile_def keyDirFile_def
        isOld_def os_Stat_def dec len)
  show "keyDirFileBuild Map.empty (snapshot_dir 3 2) = Inr (False, Map.empty)"
    by (simp add: keyDirFileBuild_def snapshot_dir_def os_ReadFile_def keyDirFile_def
        isOld_def os_Stat_def)
qed

theorem keyDirFileBuild_takes_the_older_snapshot_witness:
  "keyDirFileBuild Map.empty (snapshot_dir 1 2) \<noteq> keyDirFileBuild Map.empty (snapshot_dir 3 2)"
  using keyDirFileBuild_takes_the_older_snapshot by simp

section \<open>Safe I/O\<close>


section \<open>Safe I/O\<close>

text \<open>
  \<open>ReadAt\<close> whose first read brings no octet and an error: the loop asks again for the
  same octets at the same offset, and \<open>attempts\<close> stays 0.
\<close>

lemma ReadAt_loop_stuck_aux:
  assumes "ReadAt_loop r b i off err a = Some y"
  shows "r (length b) off = ([], Some e) \<longrightarrow> i = 0 \<longrightarrow> err = Some e \<longrightarrow> a \<noteq> maxAttempts \<longrightarrow> False"
  using assms
proof (induction rule: ReadAt_loop.raw_induct [rotated 1, consumes 1])
  case (1 f r b i off err a y)
  show ?case
  proof (intro impI)
    assume rd: "r (length b) off = ([], Some e)" and i: "i = 0" and err: "err = Some e"
      and a: "a \<noteq> maxAttempts"
    with 1(2) have "f r b 0 off (Some e) a = Some y"
      by (simp add: copy_at_def)
    from 1(1) [OF this] rd a show False by simp
  qed
qed

lemma sio_ReadAt_stuck:
  assumes "rd (length b) off = ([], Some e)"
  shows "sio_ReadAt rd b off = None"
proof (cases "sio_ReadAt rd b off")
  case None
  then show ?thesis .
next
  case (Some y)
  with assms have "ReadAt_loop rd b 0 off (Some e) 0 = Some y"
    by (simp add: sio_ReadAt_def copy_at_def)
  from ReadAt_loop_stuck_aux [OF this, of e] assms show ?thesis
    by (simp add: maxAttempts_def)
qed


text \<open>
  Claim C8 at an empty regular file, a buffer of one octet and offset 0: every read
  returns no octet and \<open>io.EOF\<close>, and \<open>ReadAt\<close> never returns.
\<close>

theorem ReadAt_never_returns:
  "sio_ReadAt (file_ReadAt []) (make_bytes 1) 0 = None"
  by (rule sio_ReadAt_stuck [where e = EOF]) (simp add: file_ReadAt_def)

text \<open>
  \<open>Write\<close> does count its attempts.  On an operating system that fails every write
  without taking an octet it gives up with that error after the first call and five
  more; the state here counts the calls.
\<close>

lemma Write_gives_up:
  "sio_Write (\<lambda>calls b. ((0, Some EIO), Suc calls)) b 0
     = (Inl (ErrOs EIO), Suc (Suc (Suc (Suc (Suc (Suc 0))))))"
proof -
  let ?wr = "\<lambda>(calls :: nat) (b :: bytes). ((0 :: nat, Some EIO), Suc calls)"
  have step: "Write_loop ?wr b 0 (Some EIO) a k = Write_loop ?wr b 0 (Some EIO) (a + 1) (Suc k)"
    if "a \<noteq> 5" for a k
    using that by (subst Write_loop.simps) (simp add: maxAttempts_def)
  have stop: "Write_loop ?wr b 0 (Some EIO) 5 k = (Inl (ErrOs EIO), k)" for k
    by (subst Write_loop.simps) (simp add: maxAttempts_def)
  have "sio_Write ?wr b 0 = Write_loop ?wr b 0 (Some EIO) 0 (Suc 0)"
    by (simp only: sio_Write_def Let_def fst_conv snd_conv)
  also have "\<dots> = Write_loop ?wr b 0 (Some EIO) 1 (Suc (Suc 0))"
    using step [of 0] by simp
  also have "\<dots> = Write_loop ?wr b 0 (Some EIO) 2 (Suc (Suc (Suc 0)))"
    using step [of 1] by simp
  also have "\<dots> = Write_loop ?wr b 0 (Some EIO) 3 (Suc (Suc (Suc (Suc 0))))"
    using step [of 2] by simp
  also have "\<dots> = Write_loop ?wr b 0 (Some EIO) 4 (Suc (Suc (Suc (Suc (Suc 0)))))"
    using step [of 3] by simp
  also have "\<dots> = Write_loop ?wr b 0 (Some EIO) 5 (Suc (Suc (Suc (Suc (Suc (Suc 0))))))"
    using step [of 4] by simp
  finally show ?thesis by (simp only: stop)
qed

lemma sio_ReadAt_full:
  assumes "rd (length b) off = (got, None)" and "length got = length b"
  shows "sio_ReadAt rd b off = Some (got, Inr (length b))"
  using assms by (simp add: sio_ReadAt_def ReadAt_loop.simps copy_at_def)

lemma file_ReadAt_full:
  assumes "0 \<le> sint off" and "nat (sint off) + n \<le> length content"
  shows "file_ReadAt content n off = (slice content (nat (sint off)) (nat (sint off) + n), None)"
  using assms by (simp add: file_ReadAt_def slice_def)

section \<open>The engine: handles opened read-only\<close>

lemma parseUsrOpts_loop_ReadOnly:
  "ReadWrite \<notin> set opts \<Longrightarrow>
   accessPermission (parseUsrOpts_loop o0 opts) = accessPermission o0"
  by (induction opts arbitrary: o0) (auto split: ConfigOpt.splits)

lemma parseUsrOpts_ReadOnly:
  "ReadWrite \<notin> set opts \<Longrightarrow> accessPermission (parseUsrOpts opts) = ReadOnly"
  by (simp add: parseUsrOpts_def parseUsrOpts_loop_ReadOnly)



section \<open>The segment writer\<close>

lemma write_at_end [simp]: "write_at c (length c) b = c @ b"
  by (simp add: write_at_def)

lemma Write_loop_done [simp]: "Write_loop wr b i None attempts s = (Inr (length b), s)"
  by (subst Write_loop.simps) simp

lemma ok_writes_cases: "ok_writes ws \<Longrightarrow> ws = [] \<or> (\<exists>rs. ws = WOk # rs)"
  by (cases ws rule: ok_writes.cases) auto

lemma sio_Write_ok:
  assumes "ok_writes ws" and "\<not> fclosed f" and "d (fname f) = Some c" and "foffset f = length c"
  shows "sio_Write os_Write rec (d, f, ws)
    = (Inr (length rec), d(fname f \<mapsto> c @ rec), f\<lparr>foffset := length c + length rec\<rparr>, tl ws)"
  using assms ok_writes_cases [OF assms(1)]
  by (auto simp: sio_Write_def Let_def)

lemma data_hint_differ [simp]: "data_name env \<noteq> hint_name env'" "hint_name env' \<noteq> data_name env"
proof -
  have "last (data_name env) = CHR ''a''" "last (hint_name env') = CHR ''t''"
    by (simp_all add: data_name_def hint_name_def)
  then show "data_name env \<noteq> hint_name env'" "hint_name env' \<noteq> data_name env"
    by auto
qed

lemma hint_name_eq [simp]: "hint_name e = hint_name e' \<longleftrightarrow> data_name e = data_name e'"
  by (simp add: hint_name_def data_name_def)

lemma data_name_nonempty [simp]:
  "data_name env \<noteq> []" "hint_name env \<noteq> []" "[] \<noteq> data_name env" "[] \<noteq> hint_name env"
  by (simp_all add: data_name_def hint_name_def)

lemma newAppendFile_nominal:
  assumes n: "nominal_append d env" and w: "writer_ok a d"
  shows "\<exists>a'. newAppendFile a d env = (None, a', minted a d env) \<and>
           writer_ok a' (minted a d env) \<and> fileName a' = data_name env \<and>
           currentSize a' = 0 \<and> currentPos a' = 0 \<and> appendType a' = appendType a \<and>
           fileWrapper a' \<noteq> None \<and>
           (appendType a = Merge_type \<longrightarrow> map_option fname (hintWrapper a') = Some (hint_name env))"
proof (cases "fileWrapper a")
  case None
  with n show ?thesis
    by (auto simp: newAppendFile_def nominal_append_def no_faults_def Let_def os_OpenFile_def
        minted_def writer_ok_def data_name_def hint_name_def domIff split: option.splits)
next
  case (Some f)
  with n w show ?thesis
    by (auto simp: newAppendFile_def nominal_append_def no_faults_def Let_def os_OpenFile_def
        os_Close_def minted_def writer_ok_def data_name_def hint_name_def domIff
        split: option.splits)
qed


lemma WriteData_rolls:
  assumes n: "nominal_append d env" and w: "writer_ok a d"
    and r: "fileWrapper a = None \<or> maxFileSize < length (CompressDataFileRec key val tstamp) + currentSize a"
  shows "\<exists>a'. WriteData a d key val tstamp env
             = (Inr 0, a', (minted a d env)(data_name env \<mapsto> CompressDataFileRec key val tstamp)) \<and>
           writer_ok a' ((minted a d env)(data_name env \<mapsto> CompressDataFileRec key val tstamp)) \<and>
           fileName a' = data_name env \<and> appendType a' = appendType a \<and>
           currentSize a' = length (CompressDataFileRec key val tstamp) \<and>
           fileWrapper a' \<noteq> None \<and>
           (appendType a = Merge_type \<longrightarrow> map_option fname (hintWrapper a') = Some (hint_name env))"
proof -
  let ?rec = "CompressDataFileRec key val tstamp"
  from newAppendFile_nominal [OF n w] obtain a1 where
    a1: "newAppendFile a d env = (None, a1, minted a d env)"
    and w1: "writer_ok a1 (minted a d env)" and fn: "fileName a1 = data_name env"
    and sz: "currentSize a1 = 0" "currentPos a1 = 0" and ty: "appendType a1 = appendType a"
    and fw: "fileWrapper a1 \<noteq> None"
    and hn: "appendType a = Merge_type \<longrightarrow> map_option fname (hintWrapper a1) = Some (hint_name env)"
    by blast
  from fw obtain f where f: "fileWrapper a1 = Some f" by auto
  from w1 f fn have fok: "\<not> fclosed f" "fname f = data_name env" "foffset f = 0"
    and c: "minted a d env (data_name env) = Some []"
    by (auto simp: writer_ok_def minted_def split: option.splits if_splits)
  from n have okw: "ok_writes (writes env)"
    by (simp add: nominal_append_def no_faults_def)
  have sw: "sio_Write os_Write ?rec (minted a d env, f, writes env)
      = (Inr (length ?rec), (minted a d env)(data_name env \<mapsto> ?rec),
         f\<lparr>foffset := length ?rec\<rparr>, tl (writes env))"
    using sio_Write_ok [OF okw fok(1), of "minted a d env" "[]" ?rec] c fok by simp
  let ?a' = "a1\<lparr>fileWrapper := Some (f\<lparr>foffset := length ?rec\<rparr>),
      currentPos := length ?rec, currentSize := length ?rec\<rparr>"
  have res: "WriteData a d key val tstamp env
      = (Inr 0, ?a', (minted a d env)(data_name env \<mapsto> ?rec))"
    using r a1 f sw sz by (simp add: WriteData_def Let_def)
  have "writer_ok ?a' ((minted a d env)(data_name env \<mapsto> ?rec))"
    using w1 f fn fok ty
    by (auto simp: writer_ok_def minted_def split: option.splits if_splits)
  with res fn ty hn show ?thesis by auto
qed

lemma WriteData_stays:
  assumes n: "nominal_append d env" and w: "writer_ok a d"
    and r: "\<not> (fileWrapper a = None \<or> maxFileSize < length (CompressDataFileRec key val tstamp) + currentSize a)"
  shows "\<exists>a' c. d (fileName a) = Some c \<and> currentSize a = length c \<and>
           WriteData a d key val tstamp env
             = (Inr (length c), a', d(fileName a \<mapsto> c @ CompressDataFileRec key val tstamp)) \<and>
           writer_ok a' (d(fileName a \<mapsto> c @ CompressDataFileRec key val tstamp)) \<and>
           fileName a' = fileName a \<and> appendType a' = appendType a \<and>
           currentSize a' = length c + length (CompressDataFileRec key val tstamp) \<and>
           fileWrapper a' \<noteq> None \<and> hintWrapper a' = hintWrapper a"
proof -
  let ?rec = "CompressDataFileRec key val tstamp"
  from r obtain f where f: "fileWrapper a = Some f" by auto
  from w f obtain c where c: "d (fileName a) = Some c"
    and fok: "\<not> fclosed f" "fname f = fileName a" "foffset f = length c"
    and sz: "currentPos a = length c" "currentSize a = length c"
    by (auto simp: writer_ok_def split: option.splits)
  from n have okw: "ok_writes (writes env)"
    by (simp add: nominal_append_def no_faults_def)
  have sw: "sio_Write os_Write ?rec (d, f, writes env)
      = (Inr (length ?rec), d(fileName a \<mapsto> c @ ?rec),
         f\<lparr>foffset := length c + length ?rec\<rparr>, tl (writes env))"
    using sio_Write_ok [OF okw fok(1), of d c ?rec] c fok by simp
  let ?a' = "a\<lparr>fileWrapper := Some (f\<lparr>foffset := length c + length ?rec\<rparr>),
      currentPos := length c + length ?rec, currentSize := length c + length ?rec\<rparr>"
  have res: "WriteData a d key val tstamp env = (Inr (length c), ?a', d(fileName a \<mapsto> c @ ?rec))"
    using r f sw sz by (simp add: WriteData_def Let_def)
  have "writer_ok ?a' (d(fileName a \<mapsto> c @ ?rec))"
    using w f fok
    by (auto simp: writer_ok_def split: option.splits if_splits)
  with res c sz show ?thesis by auto
qed

lemma appends_invariant:
  assumes "writer_ok a d"
    and "\<forall>f c. f \<notin> D \<longrightarrow> d f = Some c \<longrightarrow>
           length c \<le> maxFileSize \<or> (\<exists>call\<in>set done. c = record_of call)"
    and "nominal_appends (a, d) calls"
  shows "writer_ok (fst (appends (a, d) calls)) (snd (appends (a, d) calls)) \<and>
         (\<forall>f c. f \<notin> D \<longrightarrow> snd (appends (a, d) calls) f = Some c \<longrightarrow>
           length c \<le> maxFileSize \<or> (\<exists>call\<in>set (done @ calls). c = record_of call))"
  using assms
proof (induction calls arbitrary: a d "done")
  case Nil
  then show ?case by simp
next
  case (Cons call calls)
  obtain key val tstamp env where call: "call = (key, val, tstamp, env)"
    by (cases call) auto
  let ?rec = "CompressDataFileRec key val tstamp"
  from Cons.prems(3) call have n: "nominal_append d env"
    and rest: "nominal_appends (snd (WriteData a d key val tstamp env)) calls"
    by simp_all
  have rc: "record_of call = ?rec" by (simp add: record_of_def call)
  have "\<exists>a' d'. snd (WriteData a d key val tstamp env) = (a', d') \<and> writer_ok a' d' \<and>
      (\<forall>f c. f \<notin> D \<longrightarrow> d' f = Some c \<longrightarrow>
           length c \<le> maxFileSize \<or> (\<exists>x\<in>set (done @ [call]). c = record_of x))"
  proof (cases "fileWrapper a = None \<or> maxFileSize < length ?rec + currentSize a")
    case True
    from WriteData_rolls [OF n Cons.prems(1) True] obtain a' where
      "WriteData a d key val tstamp env = (Inr 0, a', (minted a d env)(data_name env \<mapsto> ?rec))"
      "writer_ok a' ((minted a d env)(data_name env \<mapsto> ?rec))"
      by blast
    with Cons.prems(2) rc show ?thesis
      by (auto simp: minted_def split: if_splits)
  next
    case False
    from WriteData_stays [OF n Cons.prems(1) False] obtain a' c where
      c: "d (fileName a) = Some c" "currentSize a = length c"
      and "WriteData a d key val tstamp env = (Inr (length c), a', d(fileName a \<mapsto> c @ ?rec))"
      "writer_ok a' (d(fileName a \<mapsto> c @ ?rec))"
      by blast
    moreover from False c have "length (c @ ?rec) \<le> maxFileSize" by simp
    ultimately show ?thesis using Cons.prems(2)
      by (auto split: if_splits)
  qed
  then obtain a' d' where s': "snd (WriteData a d key val tstamp env) = (a', d')"
    and w': "writer_ok a' d'"
    and q': "\<forall>f c. f \<notin> D \<longrightarrow> d' f = Some c \<longrightarrow>
           length c \<le> maxFileSize \<or> (\<exists>x\<in>set (done @ [call]). c = record_of x)"
    by blast
  from rest s' have "nominal_appends (a', d') calls" by simp
  from Cons.IH [OF w' q' this] show ?case
    by (simp add: call s')
qed

lemma writer_ok_new [simp]: "writer_ok (NewAppendFile t) d"
  by (simp add: writer_ok_def NewAppendFile_def)

lemma WriteData_new:
  "WriteData (NewAppendFile Active_type) Map.empty key val t (quiet c) =
     (Inr 0,
      \<lparr>fileWrapper = Some \<lparr>fname = data_name (quiet c),
                            foffset = length (CompressDataFileRec key val t),
                            fclosed = False\<rparr>,
       hintWrapper = None, fileName = data_name (quiet c), appendType = Active_type,
       currentPos = length (CompressDataFileRec key val t),
       currentSize = length (CompressDataFileRec key val t)\<rparr>,
      [data_name (quiet c) \<mapsto> CompressDataFileRec key val t])"
  by (simp add: WriteData_def NewAppendFile_def newAppendFile_def os_OpenFile_def quiet_def
      sio_Write_def Let_def data_name_def write_at_def del: length_Compress)

lemma segment_names_differ [simp]:
  "data_name (quiet 3) \<noteq> data_name (quiet 2)" "hint_name (quiet 3) \<noteq> data_name (quiet 2)"
  by (simp_all add: data_name_def hint_name_def quiet_def FormatInt_def byte_of_nat_def)



section \<open>The engine: reading what the index points at\<close>

lemma sint_ucast_32_64: "sint (ucast (p :: 32 word) :: 64 word) = int (unat p)"
proof -
  have lt: "uint p < 2 ^ 32" using unsigned_less [of p, where 'a = int] by simp
  have "uint (ucast p :: 64 word) = take_bit 64 (uint p)"
    by (simp add: unsigned_ucast_eq)
  also have "\<dots> = uint p"
    using lt by (simp add: take_bit_int_eq_self)
  finally have u: "uint (ucast p :: 64 word) = uint p" .
  have "sint (ucast p :: 64 word) = signed_take_bit 63 (uint p)"
    by (simp add: sint_uint u)
  also have "\<dots> = uint p"
  proof (rule signed_take_bit_int_eq_self)
    have "(- (2 ^ 63) :: int) \<le> 0" by simp
    then show "- (2 ^ 63) \<le> uint p" using uint_ge_0 [of p] by (rule order_trans)
    show "uint p < 2 ^ 63" using lt by simp
  qed
  finally show ?thesis by simp
qed


lemma Read_holds:
  assumes "entry_holds d key rec val"
  shows "ReadValueFromFile d (FileId rec) key (ValuePos rec) (KeyDirRec.ValueSize rec)
    = Some (if val = TompStone then Inl (ErrKeyNotExist key) else Inr val)"
proof -
  let ?n = "18 + length key + length val"
  let ?p = "unat (ValuePos rec)"
  from assms obtain c t where c: "d (FileId rec) = Some c" and f: "fits key val"
    and vs: "KeyDirRec.ValueSize rec = word_of_nat (length val)"
    and le: "?p + ?n \<le> length c"
    and sl: "slice c ?p (?p + ?n) = CompressDataFileRec key val t"
    by (auto simp: entry_holds_def split: option.splits)
  from f have k: "18 + length key < 2 ^ 16" and v: "?n < 2 ^ 32"
    by (simp_all add: fits_def)
  have "(word_of_nat DataFileRecHdr + word_of_nat (length key) + word_of_nat (length val) :: 32 word)
      = word_of_nat ?n"
    by (simp add: DataFileRecHdr_def)
  then have sz: "unat (word_of_nat DataFileRecHdr + word_of_nat (length key)
      + KeyDirRec.ValueSize rec :: 32 word) = ?n"
    using unat_of_nat32 [OF v] vs by simp
  have off: "0 \<le> sint (ucast (ValuePos rec) :: 64 word)"
    "nat (sint (ucast (ValuePos rec) :: 64 word)) = ?p"
    by (simp_all add: sint_ucast_32_64)
  have rd: "file_ReadAt c (length (make_bytes ?n)) (ucast (ValuePos rec))
      = (CompressDataFileRec key val t, None)"
    using file_ReadAt_full [OF off(1), of ?n c] le sl off(2) by simp
  have "sio_ReadAt (file_ReadAt c) (make_bytes ?n) (ucast (ValuePos rec))
      = Some (CompressDataFileRec key val t, Inr (length (make_bytes ?n)))"
    using sio_ReadAt_full [of "file_ReadAt c" "make_bytes ?n" "ucast (ValuePos rec)"
        "CompressDataFileRec key val t"] rd
    by simp
  then show ?thesis
    using c sz Extract_Compress [OF k v, of t]
    by (simp add: ReadValueFromFile_def Let_def)
qed

lemma extends_refl [simp]: "extends d d"
  by (auto simp: extends_def)

lemma extends_trans: "extends d d' \<Longrightarrow> extends d' d'' \<Longrightarrow> extends d d''"
  by (fastforce simp: extends_def)

lemma slice_append: "hi \<le> length c \<Longrightarrow> slice (c @ x) lo hi = slice c lo hi"
  by (simp add: slice_def)

lemma entry_holds_extends:
  assumes "entry_holds d key rec val" and "extends d d'"
  shows "entry_holds d' key rec val"
proof -
  from assms(1) obtain c where c: "d (FileId rec) = Some c"
    by (auto simp: entry_holds_def split: option.splits)
  with assms(2) obtain x where "d' (FileId rec) = Some (c @ x)"
    by (auto simp: extends_def)
  with assms(1) c show ?thesis
    by (auto simp: entry_holds_def slice_append)
qed

lemma index_ok_extends: "index_ok kd d \<Longrightarrow> extends d d' \<Longrightarrow> index_ok kd d'"
  by (meson index_ok_def entry_holds_extends)

lemma entry_holds_unique:
  assumes "entry_holds d key rec val" and "entry_holds d key rec val'"
  shows "val = val'"
  using Read_holds [OF assms(1)] Read_holds [OF assms(2)]
  by (auto split: if_splits)

lemma slice_whole: "slice c 0 (length c) = c"
  by (simp add: slice_def)

lemma slice_suffix: "slice (c @ r) (length c) (length c + length r) = r"
  by (simp add: slice_def)

lemma Put_nominal:
  assumes ok: "engine_ok b d" and n: "nominal_append d env" and f: "fits key val"
  shows "\<exists>b' d' rec. Put b d key val \<lparr>put_now = t, put_os = env\<rparr> = (None, b', d') \<and>
           engine_ok b' d' \<and> extends d d' \<and> usrOpts b' = usrOpts b \<and>
           keyDir b' = (keyDir b)(key \<mapsto> rec) \<and> entry_holds d' key rec val"
proof -
  let ?a = "activeFile b"
  let ?rec = "CompressDataFileRec key val t"
  from ok have rw: "accessPermission (usrOpts b) = ReadWrite"
    and ty: "appendType ?a = Active_type" and w: "writer_ok ?a d"
    and ix: "index_ok (keyDir b) d" and ne: "[] \<notin> dom d"
    by (simp_all add: engine_ok_def)
  from n have fresh: "data_name env \<notin> dom d" by (simp add: nominal_append_def)
  have "\<exists>a' d' n. WriteData ?a d key val t env = (Inr n, a', d') \<and> writer_ok a' d' \<and>
      appendType a' = Active_type \<and> extends d d' \<and> [] \<notin> dom d' \<and>
      entry_holds d' key \<lparr>FileId = fileName a', ValuePos = word_of_nat n,
        ValueSize = word_of_nat (length val), Tstamp = t\<rparr> val"
  proof (cases "fileWrapper ?a = None \<or> maxFileSize < length ?rec + currentSize ?a")
    case True
    from WriteData_rolls [OF n w True] ty obtain a' where
      wd: "WriteData ?a d key val t env = (Inr 0, a', d(data_name env \<mapsto> ?rec))"
      and w': "writer_ok a' (d(data_name env \<mapsto> ?rec))"
      and fn: "fileName a' = data_name env" and ty': "appendType a' = Active_type"
      by (auto simp: minted_def)
    have "extends d (d(data_name env \<mapsto> ?rec))"
      using fresh by (auto simp: extends_def)
    moreover have "entry_holds (d(data_name env \<mapsto> ?rec)) key
        \<lparr>FileId = fileName a', ValuePos = word_of_nat 0,
          ValueSize = word_of_nat (length val), Tstamp = t\<rparr> val"
      using f fn slice_whole [of ?rec] by (auto simp: entry_holds_def)
    ultimately show ?thesis using wd w' ty' ne by auto
  next
    case False
    from WriteData_stays [OF n w False] ty obtain a' c where
      c: "d (fileName ?a) = Some c" "currentSize ?a = length c"
      and wd: "WriteData ?a d key val t env = (Inr (length c), a', d(fileName ?a \<mapsto> c @ ?rec))"
      and w': "writer_ok a' (d(fileName ?a \<mapsto> c @ ?rec))"
      and fn: "fileName a' = fileName ?a" and ty': "appendType a' = Active_type"
      by auto
    from False c have "length c \<le> maxFileSize" by simp
    then have "length c < 2 ^ 32" by (simp add: maxFileSize_def)
    then have pos: "unat (word_of_nat (length c) :: 32 word) = length c"
      by (rule unat_of_nat32)
    have "extends d (d(fileName ?a \<mapsto> c @ ?rec))"
      using c by (auto simp: extends_def)
    moreover have "entry_holds (d(fileName ?a \<mapsto> c @ ?rec)) key
        \<lparr>FileId = fileName a', ValuePos = word_of_nat (length c),
          ValueSize = word_of_nat (length val), Tstamp = t\<rparr> val"
      using f fn pos slice_suffix [of c ?rec] by (auto simp: entry_holds_def)
    moreover have "[] \<notin> dom (d(fileName ?a \<mapsto> c @ ?rec))"
      using ne c by auto
    ultimately show ?thesis using wd w' ty' by auto
  qed
  then obtain a' d' n where wd: "WriteData ?a d key val t env = (Inr n, a', d')"
    and w': "writer_ok a' d'" and ty': "appendType a' = Active_type"
    and ex: "extends d d'" and ne': "[] \<notin> dom d'"
    and eh: "entry_holds d' key \<lparr>FileId = fileName a', ValuePos = word_of_nat n,
        ValueSize = word_of_nat (length val), Tstamp = t\<rparr> val"
    by blast
  let ?r = "\<lparr>FileId = fileName a', ValuePos = word_of_nat n,
        ValueSize = word_of_nat (length val), Tstamp = t\<rparr>"
  let ?b' = "b\<lparr>activeFile := a', keyDir := (keyDir b)(key \<mapsto> ?r)\<rparr>"
  have put: "Put b d key val \<lparr>put_now = t, put_os = env\<rparr> = (None, ?b', d')"
    using rw wd by (simp add: Put_def Let_def AppendFile_Name_def)
  have "index_ok ((keyDir b)(key \<mapsto> ?r)) d'"
    using index_ok_extends [OF ix ex] eh by (auto simp: index_ok_def)
  then have "engine_ok ?b' d'"
    using rw w' ty' ne' by (simp add: engine_ok_def)
  with put ex eh show ?thesis by auto
qed

lemma Get_holds:
  assumes "keyDir b key = Some rec" and "entry_holds d key rec val"
  shows "Get b d key = Some (if val = TompStone then Inl (ErrKeyNotExist key) else Inr val)"
  using assms by (simp add: Get_def Read_holds)

lemma Get_absent: "keyDir b key = None \<Longrightarrow> Get b d key = Some (Inl (ErrKeyNotExist key))"
  by (simp add: Get_def)

lemma Get_index_ok:
  assumes "index_ok (keyDir b) d"
  shows "Get b d key = Some (case contents b d key of
                               None \<Rightarrow> Inl (ErrKeyNotExist key) | Some v \<Rightarrow> Inr v)"
proof (cases "keyDir b key")
  case None
  then show ?thesis by (simp add: contents_def Get_absent)
next
  case (Some rec)
  with assms obtain val where "entry_holds d key rec val"
    by (auto simp: index_ok_def)
  from Get_holds [OF Some this] show ?thesis
    by (simp add: contents_def)
qed

lemma Get_extends:
  assumes "index_ok (keyDir b) d" and "extends d d'" and "keyDir b' key = keyDir b key"
  shows "Get b' d' key = Get b d key"
proof (cases "keyDir b key")
  case None
  with assms(3) show ?thesis by (simp add: Get_absent)
next
  case (Some rec)
  with assms(1) obtain val where h: "entry_holds d key rec val"
    by (auto simp: index_ok_def)
  from Some assms(3) have "keyDir b' key = Some rec" by simp
  from Get_holds [OF this entry_holds_extends [OF h assms(2)]] Get_holds [OF Some h]
  show ?thesis by simp
qed

lemma Put_contents:
  assumes ok: "engine_ok b d" and n: "nominal_append d env" and f: "fits key val"
  shows "\<exists>b' d'. Put b d key val \<lparr>put_now = t, put_os = env\<rparr> = (None, b', d') \<and>
           engine_ok b' d' \<and> extends d d' \<and>
           contents b' d' = (contents b d)(key := if val = TompStone then None else Some val)"
proof -
  from Put_nominal [OF ok n f, of t] obtain b' d' rec where
    p: "Put b d key val \<lparr>put_now = t, put_os = env\<rparr> = (None, b', d')"
    and ok': "engine_ok b' d'" and ex: "extends d d'"
    and kd: "keyDir b' = (keyDir b)(key \<mapsto> rec)" and eh: "entry_holds d' key rec val"
    by blast
  from ok have ix: "index_ok (keyDir b) d" by (simp add: engine_ok_def)
  have "contents b' d' k = ((contents b d)(key := if val = TompStone then None else Some val)) k"
    for k
  proof (cases "k = key")
    case True
    from kd have "keyDir b' key = Some rec" by simp
    from Get_holds [OF this eh] True show ?thesis by (simp add: contents_def)
  next
    case False
    with kd have "keyDir b' k = keyDir b k" by simp
    from Get_extends [OF ix ex this] False show ?thesis by (simp add: contents_def)
  qed
  then have "contents b' d' = (contents b d)(key := if val = TompStone then None else Some val)"
    by (rule ext)
  with p ok' ex show ?thesis by blast
qed

lemma fits_TompStone: "18 + length key < 2 ^ 16 \<Longrightarrow> fits key TompStone"
  by (simp add: fits_def TompStone_def)

lemma Delete_contents:
  assumes ok: "engine_ok b d" and n: "nominal_append d env"
  shows "\<exists>r b' d'. Delete b d key \<lparr>put_now = t, put_os = env\<rparr> = Some (r, b', d') \<and>
           engine_ok b' d' \<and> extends d d' \<and> contents b' d' = (contents b d)(key := None)"
proof -
  from ok have ix: "index_ok (keyDir b) d" and rw: "accessPermission (usrOpts b) = ReadWrite"
    by (simp_all add: engine_ok_def)
  show ?thesis
  proof (cases "contents b d key")
    case None
    with Get_index_ok [OF ix, of key] have "Get b d key = Some (Inl (ErrKeyNotExist key))"
      by simp
    with rw have "Delete b d key \<lparr>put_now = t, put_os = env\<rparr>
        = Some (Some (ErrKeyNotExist key), b, d)"
      by (simp add: Delete_def)
    moreover from None have "contents b d = (contents b d)(key := None)" by auto
    ultimately show ?thesis using ok by auto
  next
    case (Some v)
    with Get_index_ok [OF ix, of key] have g: "Get b d key = Some (Inr v)" by simp
    then obtain rec where r: "keyDir b key = Some rec"
      by (cases "keyDir b key") (auto simp: Get_absent)
    with ix obtain val where "entry_holds d key rec val" by (auto simp: index_ok_def)
    then have "fits key val" by (auto simp: entry_holds_def split: option.splits)
    then have "fits key TompStone" by (simp add: fits_def TompStone_def)
    from Put_contents [OF ok n this, of t] obtain b' d' where
      "Put b d key TompStone \<lparr>put_now = t, put_os = env\<rparr> = (None, b', d')"
      "engine_ok b' d'" "extends d d'" "contents b' d' = (contents b d)(key := None)"
      by auto
    with g rw show ?thesis by (simp add: Delete_def)
  qed
qed

section \<open>The engine: merge\<close>

lemma WriteHint_nominal:
  assumes w: "writer_ok a d" and ty: "appendType a = Merge_type" and fw: "fileWrapper a \<noteq> None"
    and okw: "ok_writes ws"
  shows "\<exists>a' h ch x. hintWrapper a = Some h \<and> d (fname h) = Some ch \<and> fname h \<noteq> fileName a \<and>
           WriteHint a d key rec ws = (None, a', d(fname h \<mapsto> ch @ x)) \<and>
           writer_ok a' (d(fname h \<mapsto> ch @ x)) \<and> fileName a' = fileName a \<and>
           appendType a' = Merge_type \<and> fileWrapper a' = fileWrapper a \<and>
           map_option fname (hintWrapper a') = Some (fname h)"
proof -
  from fw obtain f where f: "fileWrapper a = Some f" by auto
  from w f ty obtain h ch where h: "hintWrapper a = Some h" and hc: "\<not> fclosed h"
    and hn: "fname h \<noteq> fileName a" and ch: "d (fname h) = Some ch" "foffset h = length ch"
    by (auto simp: writer_ok_def split: option.splits)
  let ?buf = "CompressHintFileRec key rec"
  have sw: "sio_Write os_Write ?buf (d, h, ws)
      = (Inr (length ?buf), d(fname h \<mapsto> ch @ ?buf),
         h\<lparr>foffset := length ch + length ?buf\<rparr>, tl ws)"
    using sio_Write_ok [OF okw hc, of d ch ?buf] ch by simp
  let ?a' = "a\<lparr>hintWrapper := Some (h\<lparr>foffset := length ch + length ?buf\<rparr>)\<rparr>"
  have res: "WriteHint a d key rec ws = (None, ?a', d(fname h \<mapsto> ch @ ?buf))"
    using h sw by (simp add: WriteHint_def Let_def)
  have "writer_ok ?a' (d(fname h \<mapsto> ch @ ?buf))"
    using w f h hn ty by (auto simp: writer_ok_def split: option.splits)
  with res h ch hn ty show ?thesis by auto
qed


lemma mergeWrite_tombstone:
  assumes "keyDir b key = Some rec" and "entry_holds d key rec TompStone"
  shows "mergeWrite b d mf key env = Some (Inl (ErrKeyNotExist key), mf, d)"
  using assms Read_holds [OF assms(2)] by (simp add: mergeWrite_def)

lemma mergeWrite_nominal:
  assumes kd: "keyDir b key = Some rec" and eh: "entry_holds d key rec val"
    and live: "val \<noteq> TompStone"
    and w: "writer_ok mf d" and ty: "appendType mf = Merge_type" and out: "writer_outside D mf"
    and n: "nominal_append d (step_os env)" and okh: "ok_writes (step_hint env)"
    and D: "D \<subseteq> dom d" and ne: "[] \<notin> dom d"
  shows "\<exists>mf' d' rec'. mergeWrite b d mf key env = Some (Inr rec', mf', d') \<and>
           writer_ok mf' d' \<and> appendType mf' = Merge_type \<and> writer_outside D mf' \<and>
           extends d d' \<and> (\<forall>f\<in>D. d' f = d f) \<and> [] \<notin> dom d' \<and>
           dom d' \<subseteq> dom d \<union> {data_name (step_os env), hint_name (step_os env)} \<and>
           FileId rec' \<notin> D \<and> entry_holds d' key rec' val"
proof -
  let ?t = "step_now env"
  let ?e = "step_os env"
  let ?enc = "CompressDataFileRec key val ?t"
  from eh have f: "fits key val" by (auto simp: entry_holds_def split: option.splits)
  from n have fresh: "data_name ?e \<notin> dom d" "hint_name ?e \<notin> dom d"
    by (simp_all add: nominal_append_def)
  have rd: "ReadValueFromFile d (FileId rec) key (ValuePos rec) (KeyDirRec.ValueSize rec)
      = Some (Inr val)"
    using Read_holds [OF eh] live by simp
  have "\<exists>m1 d1 n. WriteData mf d key val ?t ?e = (Inr n, m1, d1) \<and> writer_ok m1 d1 \<and>
      appendType m1 = Merge_type \<and> writer_outside D m1 \<and> fileWrapper m1 \<noteq> None \<and>
      extends d d1 \<and> (\<forall>f\<in>D. d1 f = d f) \<and> [] \<notin> dom d1 \<and>
      dom d1 \<subseteq> dom d \<union> {data_name ?e, hint_name ?e} \<and> fileName m1 \<notin> D \<and>
      entry_holds d1 key \<lparr>FileId = fileName m1, ValuePos = word_of_nat n,
        ValueSize = word_of_nat (length val), Tstamp = ?t\<rparr> val"
  proof (cases "fileWrapper mf = None \<or> maxFileSize < length ?enc + currentSize mf")
    case True
    let ?d1 = "d(data_name ?e \<mapsto> ?enc, hint_name ?e \<mapsto> [])"
    have m: "(minted mf d ?e)(data_name ?e \<mapsto> ?enc) = ?d1"
      using ty by (auto simp: minted_def)
    from WriteData_rolls [OF n w True] ty obtain m1 where
      wd: "WriteData mf d key val ?t ?e = (Inr 0, m1, ?d1)"
      and w': "writer_ok m1 ?d1"
      and fn: "fileName m1 = data_name ?e" and ty': "appendType m1 = Merge_type"
      and fw: "fileWrapper m1 \<noteq> None"
      and hn: "map_option fname (hintWrapper m1) = Some (hint_name ?e)"
      unfolding m by auto
    have "extends d ?d1"
      using fresh by (auto simp: extends_def)
    moreover have "entry_holds ?d1 key
        \<lparr>FileId = fileName m1, ValuePos = word_of_nat 0,
          ValueSize = word_of_nat (length val), Tstamp = ?t\<rparr> val"
      using f fn slice_whole [of ?enc] by (auto simp: entry_holds_def)
    moreover have "writer_outside D m1"
      using fn hn fresh D by (auto simp: writer_outside_def split: option.splits)
    moreover have "\<forall>f\<in>D. ?d1 f = d f"
      using fresh D by auto
    moreover have "fileName m1 \<notin> D" using fn fresh D by auto
    ultimately show ?thesis using wd w' ty' fw ne by auto
  next
    case False
    from WriteData_stays [OF n w False] obtain m1 c where
      c: "d (fileName mf) = Some c" "currentSize mf = length c"
      and wd: "WriteData mf d key val ?t ?e = (Inr (length c), m1, d(fileName mf \<mapsto> c @ ?enc))"
      and w': "writer_ok m1 (d(fileName mf \<mapsto> c @ ?enc))"
      and fn: "fileName m1 = fileName mf" and ty': "appendType m1 = appendType mf"
      and fw: "fileWrapper m1 \<noteq> None" and hw: "hintWrapper m1 = hintWrapper mf"
      by auto
    from False have fwm: "fileWrapper mf \<noteq> None" by simp
    with out have o: "fileName mf \<notin> D" by (simp add: writer_outside_def)
    from False c have "length c \<le> maxFileSize" by simp
    then have "length c < 2 ^ 32" by (simp add: maxFileSize_def)
    then have pos: "unat (word_of_nat (length c) :: 32 word) = length c"
      by (rule unat_of_nat32)
    have "extends d (d(fileName mf \<mapsto> c @ ?enc))"
      using c by (auto simp: extends_def)
    moreover have "entry_holds (d(fileName mf \<mapsto> c @ ?enc)) key
        \<lparr>FileId = fileName m1, ValuePos = word_of_nat (length c),
          ValueSize = word_of_nat (length val), Tstamp = ?t\<rparr> val"
      using f fn pos slice_suffix [of c ?enc] by (auto simp: entry_holds_def)
    moreover have "[] \<notin> dom (d(fileName mf \<mapsto> c @ ?enc))"
      using ne c by auto
    moreover have "writer_outside D m1"
      using out fwm fn hw by (auto simp: writer_outside_def)
    moreover have "\<forall>f\<in>D. (d(fileName mf \<mapsto> c @ ?enc)) f = d f"
      using o by auto
    moreover have "dom (d(fileName mf \<mapsto> c @ ?enc)) \<subseteq> dom d \<union> {data_name ?e, hint_name ?e}"
      using c by auto
    ultimately show ?thesis using wd w' ty' ty fw fn o by auto
  qed
  then obtain m1 d1 n where wd: "WriteData mf d key val ?t ?e = (Inr n, m1, d1)"
    and w1: "writer_ok m1 d1" and ty1: "appendType m1 = Merge_type"
    and out1: "writer_outside D m1" and fw1: "fileWrapper m1 \<noteq> None"
    and ex1: "extends d d1" and same1: "\<forall>f\<in>D. d1 f = d f" and ne1: "[] \<notin> dom d1"
    and dom1: "dom d1 \<subseteq> dom d \<union> {data_name ?e, hint_name ?e}" and fnD: "fileName m1 \<notin> D"
    and eh1: "entry_holds d1 key \<lparr>FileId = fileName m1, ValuePos = word_of_nat n,
        ValueSize = word_of_nat (length val), Tstamp = ?t\<rparr> val"
    by blast
  let ?new = "\<lparr>FileId = fileName m1, ValuePos = word_of_nat n,
        ValueSize = word_of_nat (length val), Tstamp = ?t\<rparr>"
  from WriteHint_nominal [OF w1 ty1 fw1 okh, of key ?new] obtain m2 h ch x where
    h: "hintWrapper m1 = Some h" "d1 (fname h) = Some ch" "fname h \<noteq> fileName m1"
    and wh: "WriteHint m1 d1 key ?new (step_hint env) = (None, m2, d1(fname h \<mapsto> ch @ x))"
    and w2: "writer_ok m2 (d1(fname h \<mapsto> ch @ x))" and fn2: "fileName m2 = fileName m1"
    and ty2: "appendType m2 = Merge_type" and fw2: "fileWrapper m2 = fileWrapper m1"
    and hn2: "map_option fname (hintWrapper m2) = Some (fname h)"
    by blast
  let ?d2 = "d1(fname h \<mapsto> ch @ x)"
  from out1 fw1 h have hD: "fname h \<notin> D" by (simp add: writer_outside_def)
  have ex12: "extends d1 ?d2" using h by (auto simp: extends_def)
  have res: "mergeWrite b d mf key env = Some (Inr ?new, m2, ?d2)"
    using kd rd wd wh by (simp add: mergeWrite_def Let_def AppendFile_Name_def)
  have "writer_outside D m2"
    using out1 fw1 fw2 fn2 hn2 hD by (auto simp: writer_outside_def split: option.splits)
  moreover have "extends d ?d2" using extends_trans [OF ex1 ex12] .
  moreover have "\<forall>f\<in>D. ?d2 f = d f" using same1 hD by auto
  moreover have "[] \<notin> dom ?d2" using ne1 h by auto
  moreover have "dom ?d2 \<subseteq> dom d \<union> {data_name ?e, hint_name ?e}" using dom1 h by auto
  moreover have "entry_holds ?d2 key ?new val" using entry_holds_extends [OF eh1 ex12] .
  ultimately show ?thesis using res w2 ty2 fnD by auto
qed

lemma nominal_append_grow:
  assumes "nominal_append d e'" and "dom d' \<subseteq> dom d \<union> {data_name e, hint_name e}"
    and "data_name e' \<noteq> data_name e"
  shows "nominal_append d' e'"
  using assms by (auto simp: nominal_append_def)

lemma merged_key_later:
  assumes "merged_key b d0 d1 new new1 k" and "extends d1 d'" and "new' k = new1 k"
  shows "merged_key b d0 d' new new' k"
proof (cases "keyDir b k")
  case None
  with assms show ?thesis by (simp add: merged_key_def)
next
  case (Some r)
  show ?thesis
  proof (cases "FileId r = fileName (activeFile b) \<or> entry_holds d0 k r TompStone")
    case True
    with assms Some show ?thesis by (auto simp: merged_key_def)
  next
    case False
    with assms(1) Some obtain r' v where "entry_holds d0 k r v" "new1 k = Some r'"
      "FileId r' \<notin> dom d0" "entry_holds d1 k r' v"
      by (auto simp: merged_key_def)
    with entry_holds_extends [OF this(4) assms(2)] assms(3) Some False show ?thesis
      by (auto simp: merged_key_def)
  qed
qed

lemma merged_key_cong:
  "new1 k = new k \<Longrightarrow> merged_key b d0 d' new1 new' k = merged_key b d0 d' new new' k"
  by (cases "keyDir b k") (simp_all add: merged_key_def)

lemma Merge_loop_nominal:
  assumes ix: "index_ok (keyDir b) d0"
    and same: "\<forall>f\<in>dom d0. d f = d0 f"
    and w: "writer_ok mf d" and ty: "appendType mf = Merge_type"
    and out: "writer_outside (dom d0) mf" and ne: "[] \<notin> dom d"
    and nom: "list_all (\<lambda>s. nominal_append d (step_os (snd s)) \<and> ok_writes (step_hint (snd s))) steps"
    and dn: "distinct (map (\<lambda>s. data_name (step_os (snd s))) steps)"
    and dk: "distinct (map fst steps)"
  shows "\<exists>mf' d' new'. Merge_loop b mf d new steps = Some (None, mf', d', new') \<and>
           extends d d' \<and> (\<forall>f\<in>dom d0. d' f = d0 f) \<and> [] \<notin> dom d' \<and>
           (\<forall>k. k \<notin> fst ` set steps \<longrightarrow> new' k = new k) \<and>
           (\<forall>k\<in>fst ` set steps. merged_key b d0 d' new new' k)"
  using same w ty out ne nom dn dk
proof (induction steps arbitrary: mf d new)
  case Nil
  then show ?case by simp
next
  case (Cons step steps)
  obtain k0 e where step: "step = (k0, e)" by (cases step) auto
  from Cons.prems step have k0: "k0 \<notin> fst ` set steps" and dk': "distinct (map fst steps)"
    and dn': "distinct (map (\<lambda>s. data_name (step_os (snd s))) steps)"
    and e_new: "\<forall>s\<in>set steps. data_name (step_os (snd s)) \<noteq> data_name (step_os e)"
    and n0: "nominal_append d (step_os e)" and h0: "ok_writes (step_hint e)"
    and nom': "list_all (\<lambda>s. nominal_append d (step_os (snd s)) \<and> ok_writes (step_hint (snd s))) steps"
    by (auto simp: image_iff)
  from Cons.prems(1) have D: "dom d0 \<subseteq> dom d" by (auto simp: domIff)
  \<comment> \<open>one step, then the rest\<close>
  have "\<exists>m1 d1 new1. Merge_loop b mf d new (step # steps) = Merge_loop b m1 d1 new1 steps \<and>
      (\<forall>f\<in>dom d0. d1 f = d0 f) \<and> writer_ok m1 d1 \<and> appendType m1 = Merge_type \<and>
      writer_outside (dom d0) m1 \<and> [] \<notin> dom d1 \<and> extends d d1 \<and>
      dom d1 \<subseteq> dom d \<union> {data_name (step_os e), hint_name (step_os e)} \<and>
      (\<forall>k. k \<noteq> k0 \<longrightarrow> new1 k = new k) \<and> merged_key b d0 d1 new new1 k0"
  proof (cases "keyDir b k0")
    case None
    then show ?thesis
      using Cons.prems step by (auto simp: merged_key_def intro!: exI [of _ mf] exI [of _ d])
  next
    case (Some r)
    show ?thesis
    proof (cases "FileId r = fileName (activeFile b)")
      case True
      have "Merge_loop b mf d new (step # steps) = Merge_loop b mf d (new(k0 \<mapsto> r)) steps"
        using Some True step by (simp add: AppendFile_Name_def)
      moreover have "merged_key b d0 d new (new(k0 \<mapsto> r)) k0"
        using Some True by (simp add: merged_key_def)
      ultimately show ?thesis
        using Cons.prems by (intro exI [of _ mf] exI [of _ d] exI [of _ "new(k0 \<mapsto> r)"]) auto
    next
      case False
      from ix Some obtain v where v0: "entry_holds d0 k0 r v" by (auto simp: index_ok_def)
      then have "FileId r \<in> dom d0" by (auto simp: entry_holds_def split: option.splits)
      with Cons.prems(1) have "d (FileId r) = d0 (FileId r)" by simp
      with v0 have v: "entry_holds d k0 r v" by (simp add: entry_holds_def)
      show ?thesis
      proof (cases "v = TompStone")
        case True
        from mergeWrite_tombstone [OF Some v [unfolded True]]
        have "Merge_loop b mf d new (step # steps) = Merge_loop b mf d new steps"
          using Some False step by (simp add: AppendFile_Name_def)
        moreover have "merged_key b d0 d new new k0"
          using Some False v0 True by (simp add: merged_key_def)
        ultimately show ?thesis
          using Cons.prems by (intro exI [of _ mf] exI [of _ d] exI [of _ new]) auto
      next
        case live: False
        from mergeWrite_nominal [OF Some v live Cons.prems(2) Cons.prems(3) Cons.prems(4) n0 h0 D
            Cons.prems(5)]
        obtain m1 d1 r' where mw: "mergeWrite b d mf k0 e = Some (Inr r', m1, d1)"
          and w1: "writer_ok m1 d1" and ty1: "appendType m1 = Merge_type"
          and out1: "writer_outside (dom d0) m1" and ex1: "extends d d1"
          and same1: "\<forall>f\<in>dom d0. d1 f = d f" and ne1: "[] \<notin> dom d1"
          and dom1: "dom d1 \<subseteq> dom d \<union> {data_name (step_os e), hint_name (step_os e)}"
          and r'D: "FileId r' \<notin> dom d0" and eh1: "entry_holds d1 k0 r' v"
          by blast
        have "Merge_loop b mf d new (step # steps) = Merge_loop b m1 d1 (new(k0 \<mapsto> r')) steps"
          using Some False step mw by (simp add: AppendFile_Name_def)
        moreover have "\<not> entry_holds d0 k0 r TompStone"
          using entry_holds_unique [OF v0] live by auto
        then have "merged_key b d0 d1 new (new(k0 \<mapsto> r')) k0"
          using Some False v0 r'D eh1 by (auto simp: merged_key_def)
        moreover have "\<forall>f\<in>dom d0. d1 f = d0 f" using same1 Cons.prems(1) by simp
        ultimately show ?thesis
          using w1 ty1 out1 ne1 ex1 dom1
          by (intro exI [of _ m1] exI [of _ d1] exI [of _ "new(k0 \<mapsto> r')"]) auto
      qed
    qed
  qed
  then obtain m1 d1 new1 where
    eq: "Merge_loop b mf d new (step # steps) = Merge_loop b m1 d1 new1 steps"
    and same1: "\<forall>f\<in>dom d0. d1 f = d0 f" and w1: "writer_ok m1 d1"
    and ty1: "appendType m1 = Merge_type" and out1: "writer_outside (dom d0) m1"
    and ne1: "[] \<notin> dom d1" and ex1: "extends d d1"
    and dom1: "dom d1 \<subseteq> dom d \<union> {data_name (step_os e), hint_name (step_os e)}"
    and new1: "\<forall>k. k \<noteq> k0 \<longrightarrow> new1 k = new k" and mk0: "merged_key b d0 d1 new new1 k0"
    by blast
  have nom1: "list_all (\<lambda>s. nominal_append d1 (step_os (snd s)) \<and> ok_writes (step_hint (snd s))) steps"
    unfolding list_all_iff
  proof
    fix s assume s: "s \<in> set steps"
    with nom' have "nominal_append d (step_os (snd s))" "ok_writes (step_hint (snd s))"
      by (auto simp: list_all_iff)
    moreover from s e_new have "data_name (step_os (snd s)) \<noteq> data_name (step_os e)" by simp
    ultimately show "nominal_append d1 (step_os (snd s)) \<and> ok_writes (step_hint (snd s))"
      using nominal_append_grow [OF _ dom1] by simp
  qed
  from Cons.IH [OF same1 w1 ty1 out1 ne1 nom1 dn' dk', of new1] obtain mf' d' new' where
    loop: "Merge_loop b m1 d1 new1 steps = Some (None, mf', d', new')"
    and ex': "extends d1 d'" and same': "\<forall>f\<in>dom d0. d' f = d0 f" and ne': "[] \<notin> dom d'"
    and keep: "\<forall>k. k \<notin> fst ` set steps \<longrightarrow> new' k = new1 k"
    and fin: "\<forall>k\<in>fst ` set steps. merged_key b d0 d' new1 new' k"
    by blast
  have "merged_key b d0 d' new new' k0"
    using merged_key_later [OF mk0 ex'] keep k0 by simp
  moreover have "merged_key b d0 d' new new' k" if "k \<in> fst ` set steps" for k
  proof -
    from that k0 have "k \<noteq> k0" by auto
    with new1 have "new1 k = new k" by simp
    from merged_key_cong [of new1 k new b d0 d' new', OF this] fin that show ?thesis by blast
  qed
  moreover have "new' k = new k" if "k \<notin> fst ` set (step # steps)" for k
    using that keep new1 step by auto
  ultimately show ?case
    using eq loop extends_trans [OF ex1 ex'] same' ne' step
    by (intro exI [of _ mf'] exI [of _ d'] exI [of _ new']) auto
qed

lemma listOldFiles_loop_result:
  assumes "[] \<notin> set ls"
  shows "\<exists>old. listOldFiles_loop b res ls = Inr (res @ old) \<and>
           set old \<subseteq> set ls - {fileName (activeFile b)}"
  using assms
proof (induction ls arbitrary: res)
  case Nil
  then show ?case by simp
next
  case (Cons f ls)
  then obtain c cs where f: "f = c # cs" by (cases f) auto
  from Cons.prems have "[] \<notin> set ls" by simp
  from Cons.IH [OF this] show ?case
  proof (cases "c \<noteq> CHR ''.'' \<and> f \<noteq> AppendFile_Name (activeFile b) \<and> f \<noteq> ''keydir''")
    case True
    from Cons.IH [OF \<open>[] \<notin> set ls\<close>, of "res @ [f]"] obtain old where
      "listOldFiles_loop b (res @ [f]) ls = Inr ((res @ [f]) @ old)"
      "set old \<subseteq> set ls - {fileName (activeFile b)}"
      by blast
    with True f show ?thesis
      by (intro exI [of _ "f # old"]) (auto simp: AppendFile_Name_def)
  next
    case False
    from Cons.IH [OF \<open>[] \<notin> set ls\<close>, of res] obtain old where
      "listOldFiles_loop b res ls = Inr (res @ old)"
      "set old \<subseteq> set ls - {fileName (activeFile b)}"
      by blast
    with False f show ?thesis
      by (intro exI [of _ old]) auto
  qed
qed

lemma deleteOldFiles_keeps:
  "f \<notin> set old \<Longrightarrow> snd (deleteOldFiles d old) f = d f"
  by (induction old arbitrary: d) (auto simp: os_Remove_def split: option.splits)

lemma deleteOldFiles_dom: "dom (snd (deleteOldFiles d old)) \<subseteq> dom d"
proof (induction old arbitrary: d)
  case Nil
  then show ?case by simp
next
  case (Cons f old)
  show ?case
  proof (cases "d f")
    case None
    then show ?thesis by (simp add: os_Remove_def)
  next
    case (Some c)
    have "dom (snd (deleteOldFiles (d(f := None)) old)) \<subseteq> dom (d(f := None))"
      by (rule Cons.IH)
    with Some show ?thesis by (auto simp: os_Remove_def)
  qed
qed

lemma entry_holds_cong:
  "d' (FileId rec) = d (FileId rec) \<Longrightarrow> entry_holds d' key rec val = entry_holds d key rec val"
  by (simp add: entry_holds_def)

lemma Merge_nominal:
  assumes ok: "engine_ok b d" and nm: "nominal_merge b d env"
  shows "\<exists>new' d'. Merge b d env = Some (None, b\<lparr>keyDir := new'\<rparr>, d') \<and>
           engine_ok (b\<lparr>keyDir := new'\<rparr>) d' \<and>
           (\<forall>k. merged_key b d d' Map.empty new' k) \<and>
           (\<forall>k. Get (b\<lparr>keyDir := new'\<rparr>) d' k = Get b d k)"
proof -
  let ?a = "activeFile b"
  from ok have rw: "accessPermission (usrOpts b) = ReadWrite"
    and ty: "appendType ?a = Active_type" and w: "writer_ok ?a d"
    and ix: "index_ok (keyDir b) d" and ne: "[] \<notin> dom d"
    by (simp_all add: engine_ok_def)
  from nm obtain ls where ls: "readdir env = Inr ls" "set ls = dom d"
    and dk: "distinct (map fst (ranging env))"
    and cover: "set (map fst (ranging env)) = dom (keyDir b)"
    and dn: "distinct (map (\<lambda>s. data_name (step_os (snd s))) (ranging env))"
    and nom: "list_all (\<lambda>s. nominal_append d (step_os (snd s)) \<and> ok_writes (step_hint (snd s)))
        (ranging env)"
    by (auto simp: nominal_merge_def split: sum.splits)
  from ls ne have "[] \<notin> set ls" by simp
  from listOldFiles_loop_result [OF this, of b "[]"] ls obtain old where
    old: "listOldFiles b env = Inr old" "set old \<subseteq> dom d - {fileName ?a}"
    by (auto simp: listOldFiles_def)
  have w0: "writer_ok (NewAppendFile Merge_type) d" by simp
  have ty0: "appendType (NewAppendFile Merge_type) = Merge_type"
    by (simp add: NewAppendFile_def)
  have out0: "writer_outside (dom d) (NewAppendFile Merge_type)"
    by (simp add: writer_outside_def NewAppendFile_def)
  have same0: "\<forall>f\<in>dom d. d f = d f" by simp
  from Merge_loop_nominal [OF ix same0 w0 ty0 out0 ne nom dn dk, of Map.empty]
  obtain mf' d1 new' where
    loop: "Merge_loop b (NewAppendFile Merge_type) d Map.empty (ranging env)
        = Some (None, mf', d1, new')"
    and ex1: "extends d d1" and same1: "\<forall>f\<in>dom d. d1 f = d f" and ne1: "[] \<notin> dom d1"
    and keep: "\<forall>k. k \<notin> fst ` set (ranging env) \<longrightarrow> new' k = None"
    and fin: "\<forall>k\<in>fst ` set (ranging env). merged_key b d d1 Map.empty new' k"
    by auto
  let ?d' = "snd (deleteOldFiles d1 old)"
  let ?b' = "b\<lparr>keyDir := new'\<rparr>"
  have res: "Merge b d env = Some (None, ?b', ?d')"
    using rw old loop by (simp add: Merge_def)
  have kept: "?d' f = d1 f" if "f \<notin> dom d \<or> f = fileName ?a" for f
    using that old(2) by (intro deleteOldFiles_keeps) auto
  \<comment> \<open>the new index, key by key\<close>
  have mk1: "merged_key b d d1 Map.empty new' k" for k
  proof (cases "k \<in> fst ` set (ranging env)")
    case True
    with fin show ?thesis by blast
  next
    case False
    with cover have "keyDir b k = None" by (auto simp: domIff)
    with False keep show ?thesis by (simp add: merged_key_def)
  qed
  have mk: "merged_key b d ?d' Map.empty new' k" for k
  proof (cases "keyDir b k")
    case None
    with mk1 [of k] show ?thesis by (simp add: merged_key_def)
  next
    case (Some r)
    show ?thesis
    proof (cases "FileId r = fileName ?a \<or> entry_holds d k r TompStone")
      case True
      with mk1 [of k] Some show ?thesis by (auto simp: merged_key_def)
    next
      case False
      with mk1 [of k] Some obtain r' v where r': "entry_holds d k r v" "new' k = Some r'"
        "FileId r' \<notin> dom d" "entry_holds d1 k r' v"
        by (auto simp: merged_key_def)
      from kept [of "FileId r'"] r'(3) have "?d' (FileId r') = d1 (FileId r')" by simp
      from entry_holds_cong [of ?d' r' d1, OF this] r' Some False show ?thesis
        by (auto simp: merged_key_def)
    qed
  qed
  \<comment> \<open>entries kept from the active segment still hold\<close>
  have active: "entry_holds ?d' k r v" if "entry_holds d k r v" "FileId r = fileName ?a" for k r v
  proof -
    from that(1) have "FileId r \<in> dom d" by (auto simp: entry_holds_def split: option.splits)
    with same1 have "d1 (FileId r) = d (FileId r)" by simp
    with kept [of "FileId r"] that(2) have "?d' (FileId r) = d (FileId r)" by simp
    from entry_holds_cong [of ?d' r d, OF this] that(1) show ?thesis by simp
  qed
  have ix': "index_ok new' ?d'"
    unfolding index_ok_def
  proof (intro allI impI)
    fix k r' assume n: "new' k = Some r'"
    show "\<exists>val. entry_holds ?d' k r' val"
    proof (cases "keyDir b k")
      case None
      with mk [of k] n show ?thesis by (simp add: merged_key_def)
    next
      case (Some r)
      from ix Some obtain v where v: "entry_holds d k r v" by (auto simp: index_ok_def)
      show ?thesis
      proof (cases "FileId r = fileName ?a")
        case True
        with mk [of k] Some n have "r' = r" by (simp add: merged_key_def)
        with active [OF v True] show ?thesis by blast
      next
        case False
        with mk [of k] Some n show ?thesis
          by (auto simp: merged_key_def split: if_splits)
      qed
    qed
  qed
  have w': "writer_ok ?a ?d'"
  proof (cases "fileWrapper ?a")
    case None
    then show ?thesis by (simp add: writer_ok_def)
  next
    case (Some f)
    with w have "fileName ?a \<in> dom d" by (auto simp: writer_ok_def split: option.splits)
    with same1 have "d1 (fileName ?a) = d (fileName ?a)" by simp
    with kept [of "fileName ?a"] have "?d' (fileName ?a) = d (fileName ?a)" by simp
    with w ty Some show ?thesis by (auto simp: writer_ok_def split: option.splits)
  qed
  have ne': "[] \<notin> dom ?d'"
    using deleteOldFiles_dom [of d1 old] ne1 by auto
  have ok': "engine_ok ?b' ?d'"
    using rw ty w' ix' ne' by (simp add: engine_ok_def)
  have get: "Get ?b' ?d' k = Get b d k" for k
  proof (cases "keyDir b k")
    case None
    with mk [of k] show ?thesis by (simp add: merged_key_def Get_absent)
  next
    case (Some r)
    from ix Some obtain v where v: "entry_holds d k r v" by (auto simp: index_ok_def)
    show ?thesis
    proof (cases "FileId r = fileName ?a")
      case True
      with mk [of k] Some have "keyDir ?b' k = Some r" by (simp add: merged_key_def)
      from Get_holds [OF this active [OF v True]] Get_holds [OF Some v] show ?thesis by simp
    next
      case False
      show ?thesis
      proof (cases "v = TompStone")
        case True
        with mk [of k] Some False v have "keyDir ?b' k = None" by (simp add: merged_key_def)
        with Get_holds [OF Some v] True show ?thesis by (simp add: Get_absent)
      next
        case live: False
        then have nt: "\<not> entry_holds d k r TompStone"
          using entry_holds_unique [OF v] by auto
        with mk [of k] Some False obtain r' v' where r': "entry_holds d k r v'"
          "keyDir ?b' k = Some r'" "entry_holds ?d' k r' v'"
          by (auto simp: merged_key_def)
        from entry_holds_unique [OF v r'(1)] have "v' = v" by simp
        with Get_holds [OF r'(2) r'(3)] Get_holds [OF Some v] show ?thesis by simp
      qed
    qed
  qed
  from res ok' mk get show ?thesis by blast
qed

section \<open>The engine: sequences of operations\<close>

lemma appendType_New [simp]: "appendType (NewAppendFile t) = t"
  by (simp add: NewAppendFile_def)

lemma engine_ok_fresh [simp]: "engine_ok (fresh [ReadWrite]) Map.empty"
  by (simp add: engine_ok_def fresh_def parseUsrOpts_def index_ok_def)

lemma nominal_append_quiet_empty [simp]: "nominal_append Map.empty (quiet c)"
  by (simp add: nominal_append_def no_faults_def quiet_def)

lemma Put_fresh:
  "Put (fresh [ReadWrite]) Map.empty key val \<lparr>put_now = t, put_os = quiet c\<rparr> =
     (None,
      \<lparr>keyDir = [key \<mapsto> \<lparr>FileId = data_name (quiet c), ValuePos = 0,
                           ValueSize = word_of_nat (length val), Tstamp = t\<rparr>],
       usrOpts = parseUsrOpts [ReadWrite],
       activeFile =
         \<lparr>fileWrapper = Some \<lparr>fname = data_name (quiet c),
                               foffset = length (CompressDataFileRec key val t),
                               fclosed = False\<rparr>,
          hintWrapper = None, fileName = data_name (quiet c), appendType = Active_type,
          currentPos = length (CompressDataFileRec key val t),
          currentSize = length (CompressDataFileRec key val t)\<rparr>\<rparr>,
      [data_name (quiet c) \<mapsto> CompressDataFileRec key val t])"
  by (simp add: Put_def fresh_def parseUsrOpts_def WriteData_def NewAppendFile_def
      newAppendFile_def os_OpenFile_def quiet_def sio_Write_def Let_def data_name_def
      AppendFile_Name_def write_at_def del: length_Compress)


lemma foldl_spec_untouched:
  "\<forall>y\<in>set ops. \<not> writes_key k y \<Longrightarrow> foldl spec_op m ops k = m k"
proof (induction ops arbitrary: m)
  case Nil
  then show ?case by simp
next
  case (Cons x ops)
  then have "foldl spec_op (spec_op m x) ops k = spec_op m x k" by simp
  moreover from Cons.prems have "spec_op m x k = m k"
    by (cases x) auto
  ultimately show ?case by simp
qed

lemma foldl_spec_deleted:
  "\<forall>y\<in>set ops. \<not> puts_key k y \<Longrightarrow> m k = None \<Longrightarrow> foldl spec_op m ops k = None"
proof (induction ops arbitrary: m)
  case Nil
  then show ?case by simp
next
  case (Cons x ops)
  from Cons.prems have "spec_op m x k = None"
    by (cases x) auto
  with Cons show ?case by simp
qed

lemma put_env_eta: "\<lparr>put_now = put_now env, put_os = put_os env\<rparr> = env"
  by simp

lemma exec_refines:
  assumes ok: "engine_ok b d" and n: "nominal_op (b, d) x"
  shows "\<exists>b' d'. exec (b, d) x = Some (b', d') \<and> engine_ok b' d' \<and>
           contents b' d' = spec_op (contents b d) x"
proof (cases x)
  case (OpGet k)
  from ok have "index_ok (keyDir b) d" by (simp add: engine_ok_def)
  from Get_index_ok [OF this, of k] OpGet ok show ?thesis by simp
next
  case (OpPut k v env)
  with n have "nominal_append d (put_os env)" "fits k v" by simp_all
  from Put_contents [OF ok this, of "put_now env"] OpPut show ?thesis
    by (auto simp: put_env_eta)
next
  case (OpDelete k env)
  with n have "nominal_append d (put_os env)" by simp
  from Delete_contents [OF ok this, of k "put_now env"] OpDelete show ?thesis
    by (auto simp: put_env_eta)
next
  case (OpMerge env)
  with n have "nominal_merge b d env" by simp
  from Merge_nominal [OF ok this] obtain new' d' where
    m: "Merge b d env = Some (None, b\<lparr>keyDir := new'\<rparr>, d')"
    and ok': "engine_ok (b\<lparr>keyDir := new'\<rparr>) d'"
    and g: "\<forall>k. Get (b\<lparr>keyDir := new'\<rparr>) d' k = Get b d k"
    by blast
  from g have "contents (b\<lparr>keyDir := new'\<rparr>) d' = contents b d"
    by (simp add: contents_def)
  with m ok' OpMerge show ?thesis by simp
next
  case (OpSync fault)
  with ok show ?thesis by (simp add: Sync_def)
qed

lemma run_refines:
  assumes "engine_ok b d" and "nominal_run (b, d) ops"
  shows "\<exists>b' d'. run (b, d) ops = Some (b', d') \<and> engine_ok b' d' \<and>
           contents b' d' = foldl spec_op (contents b d) ops"
  using assms
proof (induction ops arbitrary: b d)
  case Nil
  then show ?case by simp
next
  case (Cons x ops)
  from Cons.prems have n: "nominal_op (b, d) x" by simp
  from exec_refines [OF Cons.prems(1) n] obtain b1 d1 where
    e: "exec (b, d) x = Some (b1, d1)" and ok1: "engine_ok b1 d1"
    and c1: "contents b1 d1 = spec_op (contents b d) x"
    by blast
  from Cons.prems(2) e have "nominal_run (b1, d1) ops" by simp
  from Cons.IH [OF ok1 this] e c1 show ?case by simp
qed

text \<open>
  Claim C1, as amended.  Take a read-write handle in step with its directory (every
  index entry points at an encoded record of its key) and any sequence of \<open>Get\<close>,
  \<open>Put\<close>, \<open>Delete\<close>, \<open>Merge\<close> and \<open>Sync\<close> during which the operating system reports
  no fault, the clock gives every new segment a name that is not in use, and the
  record of every \<open>Put\<close> is one the codec handles (\<open>fits\<close>).  Then every operation
  returns, and: after \<open>Put(k, v)\<close> with \<open>v\<close> not the tombstone literal and no later \<open>Put\<close>
  or \<open>Delete\<close> of \<open>k\<close>, \<open>Get(k)\<close> returns \<open>v\<close>; after \<open>Delete(k)\<close> with no later \<open>Put\<close> of
  \<open>k\<close>, \<open>Get(k)\<close> returns the error \<open>k: key does not exist\<close>.
\<close>

theorem put_get_delete:
  assumes "engine_ok b d" and "nominal_run (b, d) (pre @ x # post)"
  shows "\<exists>b' d'. run (b, d) (pre @ x # post) = Some (b', d') \<and>
           (\<forall>k v env. x = OpPut k v env \<and> v \<noteq> TompStone \<and> (\<forall>y\<in>set post. \<not> writes_key k y)
              \<longrightarrow> Get b' d' k = Some (Inr v)) \<and>
           (\<forall>k env. x = OpDelete k env \<and> (\<forall>y\<in>set post. \<not> puts_key k y)
              \<longrightarrow> Get b' d' k = Some (Inl (ErrKeyNotExist k)))"
proof -
  from run_refines [OF assms] obtain b' d' where
    r: "run (b, d) (pre @ x # post) = Some (b', d')" and ok': "engine_ok b' d'"
    and c: "contents b' d' = foldl spec_op (contents b d) (pre @ x # post)"
    by blast
  let ?m = "foldl spec_op (contents b d) pre"
  from c have c': "contents b' d' = foldl spec_op (spec_op ?m x) post" by simp
  from ok' have ix: "index_ok (keyDir b') d'" by (simp add: engine_ok_def)
  have "Get b' d' k = Some (Inr v)"
    if "x = OpPut k v env" "v \<noteq> TompStone" "\<forall>y\<in>set post. \<not> writes_key k y" for k v env
  proof -
    from foldl_spec_untouched [of post k "spec_op ?m x", OF that(3)] c' that(1,2) have "contents b' d' k = Some v"
      by simp
    with Get_index_ok [OF ix, of k] show ?thesis by simp
  qed
  moreover have "Get b' d' k = Some (Inl (ErrKeyNotExist k))"
    if "x = OpDelete k env" "\<forall>y\<in>set post. \<not> puts_key k y" for k env
  proof -
    from that(1) have "spec_op ?m x k = None" by simp
    from foldl_spec_deleted [of post k "spec_op ?m x", OF that(2) this] c' have "contents b' d' k = None"
      by simp
    with Get_index_ok [OF ix, of k] show ?thesis by simp
  qed
  ultimately show ?thesis using r by blast
qed

lemma after_put_eq:
  "after_put key val =
     (\<lparr>keyDir = [key \<mapsto> \<lparr>FileId = data_name (quiet 2), ValuePos = 0,
                           ValueSize = word_of_nat (length val), Tstamp = 1\<rparr>],
       usrOpts = parseUsrOpts [ReadWrite],
       activeFile =
         \<lparr>fileWrapper = Some \<lparr>fname = data_name (quiet 2),
                               foffset = length (CompressDataFileRec key val 1),
                               fclosed = False\<rparr>,
          hintWrapper = None, fileName = data_name (quiet 2), appendType = Active_type,
          currentPos = length (CompressDataFileRec key val 1),
          currentSize = length (CompressDataFileRec key val 1)\<rparr>\<rparr>,
      [data_name (quiet 2) \<mapsto> CompressDataFileRec key val 1])"
  by (simp only: after_put_def calm_def Put_fresh snd_conv)

lemma entry_holds_single:
  assumes "fits key val"
  shows "entry_holds [n \<mapsto> CompressDataFileRec key val t] key
           \<lparr>FileId = n, ValuePos = 0, ValueSize = word_of_nat (length val), Tstamp = t\<rparr> val"
  using assms slice_whole [of "CompressDataFileRec key val t"]
  by (auto simp: entry_holds_def)

lemma after_put_Get:
  assumes "fits key val"
  shows "Get (fst (after_put key val)) (snd (after_put key val)) key
           = Some (if val = TompStone then Inl (ErrKeyNotExist key) else Inr val)"
  by (rule Get_holds [where rec = "\<lparr>FileId = data_name (quiet 2), ValuePos = 0,
        ValueSize = word_of_nat (length val), Tstamp = 1\<rparr>"])
     (simp_all add: after_put_eq entry_holds_single [OF assms])

lemma run_single_put:
  "run (fresh [ReadWrite], Map.empty) [OpPut key val (calm 1 2)] = Some (after_put key val)"
  by (simp add: after_put_def)

text \<open>
  Claim C1 as stated fails for the value equal to the tombstone literal: on a new
  datastore, after \<open>Put("k", tombstone)\<close> and nothing else, \<open>Get("k")\<close> returns the error
  \<open>k: key does not exist\<close>, not the value written.
\<close>

theorem put_get_delete_counterexample:
  "map_option (\<lambda>s. Get (fst s) (snd s) ''k'')
     (run (fresh [ReadWrite], Map.empty) [OpPut ''k'' TompStone (calm 1 2)])
   = Some (Some (Inl (ErrKeyNotExist ''k'')))"
proof -
  have f: "fits ''k'' TompStone" by (simp add: fits_def TompStone_def)
  show ?thesis
    unfolding run_single_put using after_put_Get [OF f] by simp
qed

lemma names_differ [simp]: "data_name (quiet 4) \<noteq> data_name (quiet 2)"
  by (simp add: data_name_def quiet_def FormatInt_def byte_of_nat_def)

theorem put_get_delete_witness:
  "(\<exists>b' d'. run (fresh [ReadWrite], Map.empty)
               [OpPut ''key12'' ''value12345'' (calm 1 2), OpGet ''key12'', OpSync None]
             = Some (b', d') \<and>
            Get b' d' ''key12'' = Some (Inr ''value12345''))
   \<and> (\<exists>b' d'. run (fresh [ReadWrite], Map.empty)
               [OpPut ''key12'' ''value12345'' (calm 1 2), OpDelete ''key12'' (calm 3 4)]
             = Some (b', d') \<and>
            Get b' d' ''key12'' = Some (Inl (ErrKeyNotExist ''key12'')))"
proof
  have n1: "nominal_run (fresh [ReadWrite], Map.empty)
      ([] @ OpPut ''key12'' ''value12345'' (calm 1 2) # [OpGet ''key12'', OpSync None])"
    by (simp add: fits_def calm_def Put_fresh split: option.split)
  from put_get_delete [OF engine_ok_fresh n1]
  show "\<exists>b' d'. run (fresh [ReadWrite], Map.empty)
               [OpPut ''key12'' ''value12345'' (calm 1 2), OpGet ''key12'', OpSync None]
             = Some (b', d') \<and>
            Get b' d' ''key12'' = Some (Inr ''value12345'')"
    by (auto simp: TompStone_def)
  have n2: "nominal_run (fresh [ReadWrite], Map.empty)
      ([OpPut ''key12'' ''value12345'' (calm 1 2)] @ OpDelete ''key12'' (calm 3 4) # [])"
    by (simp add: fits_def calm_def Put_fresh nominal_append_def no_faults_def
        split: option.split) (simp add: quiet_def)
  from put_get_delete [OF engine_ok_fresh n2]
  show "\<exists>b' d'. run (fresh [ReadWrite], Map.empty)
               [OpPut ''key12'' ''value12345'' (calm 1 2), OpDelete ''key12'' (calm 3 4)]
             = Some (b', d') \<and>
            Get b' d' ''key12'' = Some (Inl (ErrKeyNotExist ''key12''))"
    by auto
qed

section \<open>The engine: the tombstone literal as a value\<close>

text \<open>
  Claim C9, as amended.  On a read-write handle in step with its directory, with no
  fault of the operating system, for every key with \<open>18 + len(key) < 2^16\<close>: \<open>Put\<close> of
  the key with the tombstone literal as its value succeeds, and \<open>Get\<close> of the key then
  returns the error \<open>key: key does not exist\<close>, although \<open>Delete\<close> was never called.
\<close>

theorem tombstone_value_reads_as_deleted:
  assumes "engine_ok b d" and "nominal_append d (put_os env)" and "18 + length key < 2 ^ 16"
  shows "\<exists>b' d'. Put b d key TompStone env = (None, b', d') \<and>
           Get b' d' key = Some (Inl (ErrKeyNotExist key))"
proof -
  from Put_nominal [OF assms(1,2) fits_TompStone [OF assms(3)], of "put_now env"]
  obtain b' d' rec where
    "Put b d key TompStone env = (None, b', d')" "keyDir b' = (keyDir b)(key \<mapsto> rec)"
    "entry_holds d' key rec TompStone"
    by (auto simp: put_env_eta)
  moreover from this have "keyDir b' key = Some rec" by simp
  ultimately show ?thesis using Get_holds [of b' key rec d' TompStone] by auto
qed

theorem tombstone_value_reads_as_deleted_witness:
  "\<exists>b' d'. Put (fresh [ReadWrite]) Map.empty ''k'' TompStone (calm 1 2) = (None, b', d') \<and>
           Get b' d' ''k'' = Some (Inl (ErrKeyNotExist ''k''))"
  using tombstone_value_reads_as_deleted [of "fresh [ReadWrite]" Map.empty "calm 1 2" "''k''"]
  by (simp add: calm_def)

lemma Compress_drop18: "drop 18 (CompressDataFileRec key val t) = key @ val"
  by (simp add: Compress_concat data_body_def)

text \<open>Reading back the only record of a segment, whatever the decoder makes of it.\<close>

lemma Read_single:
  assumes "18 + length key + length val < 2 ^ 32"
  shows "ReadValueFromFile [n \<mapsto> CompressDataFileRec key val t] n key 0 (word_of_nat (length val))
    = Some (case ExtractDataFileRec (CompressDataFileRec key val t) of
              Inl err \<Rightarrow> Inl err
            | Inr dl \<Rightarrow> if DataRec.Value (fst dl) = TompStone
                        then Inl (ErrKeyNotExist (Key (fst dl)))
                        else Inr (DataRec.Value (fst dl)))"
proof -
  let ?n = "18 + length key + length val"
  let ?enc = "CompressDataFileRec key val t"
  have "(word_of_nat DataFileRecHdr + word_of_nat (length key) + word_of_nat (length val) :: 32 word)
      = word_of_nat ?n"
    by (simp add: DataFileRecHdr_def)
  then have sz: "unat (word_of_nat DataFileRecHdr + word_of_nat (length key)
      + word_of_nat (length val) :: 32 word) = ?n"
    using unat_of_nat32 [OF assms] by simp
  have rd: "file_ReadAt ?enc (length (make_bytes ?n)) (ucast (0 :: 32 word)) = (?enc, None)"
    using file_ReadAt_full [of "ucast (0 :: 32 word)" ?n ?enc] slice_whole [of ?enc] by simp
  have "sio_ReadAt (file_ReadAt ?enc) (make_bytes ?n) (ucast (0 :: 32 word))
      = Some (?enc, Inr (length (make_bytes ?n)))"
    using sio_ReadAt_full [of "file_ReadAt ?enc" "make_bytes ?n" "ucast (0 :: 32 word)" ?enc] rd
    by simp
  then show ?thesis
    using sz by (simp add: ReadValueFromFile_def Let_def split: sum.splits)
qed

lemma after_put_Get_raw:
  assumes "18 + length key + length val < 2 ^ 32"
  shows "Get (fst (after_put key val)) (snd (after_put key val)) key
    = Some (case ExtractDataFileRec (CompressDataFileRec key val 1) of
              Inl err \<Rightarrow> Inl err
            | Inr dl \<Rightarrow> if DataRec.Value (fst dl) = TompStone
                        then Inl (ErrKeyNotExist (Key (fst dl)))
                        else Inr (DataRec.Value (fst dl)))"
  using Read_single [OF assms, of "data_name (quiet 2)" 1]
  by (simp add: after_put_eq Get_def)

lemma Extract_Compress_long_key:
  assumes k: "length key = 65536" and v: "length val = 64"
  shows "ExtractDataFileRec (CompressDataFileRec key val t) = Inl ErrDataCorruption
       \<or> (\<exists>n. ExtractDataFileRec (CompressDataFileRec key val t)
              = Inr (\<lparr>Key = [], Value = take 64 key, Tstamp = t, KeySize = 0, ValueSize = 64\<rparr>, n))"
proof -
  let ?enc = "CompressDataFileRec key val t"
  have ks: "(word_of_nat (length key) :: 16 word) = 0" using k by simp
  have vs: "(word_of_nat (length val) :: 32 word) = 64" using v by simp
  have key0: "slice ?enc 18 18 = []" by (simp add: slice_def)
  have val0: "slice ?enc 18 82 = take 64 key"
    using k by (simp add: slice_def Compress_drop18)
  show ?thesis
    unfolding ExtractDataFileRec_def Let_def Compress_sum Compress_tstamp Compress_keySize
      Compress_valueSize ks vs
    using k v key0 val0
    by (simp add: DataFileRecHdr_def validateCheckSum_def)
qed


lemma length_TompStone [simp]: "length TompStone = 64"
  by (simp add: TompStone_def)

lemma xs_not_TompStone: "replicate 64 (CHR ''x'') \<noteq> TompStone"
proof
  assume "replicate 64 (CHR ''x'') = TompStone"
  then have "hd (replicate 64 (CHR ''x'')) = hd TompStone" by simp
  then show False by (simp add: TompStone_def)
qed

text \<open>
  Claim C9 as stated, for every key, fails for long keys.  The key size field has 16
  bits: after \<open>Put\<close> of a key of 65536 octets with the tombstone literal, \<open>Get\<close> decodes
  an empty key and the first 64 octets of the key as the value; it returns the
  corruption error, or that value should the checksums agree, but not
  \<open>key does not exist\<close>.  For a key of 65518 octets the decoder's \<open>uint16\<close> slice bound
  wraps and \<open>Get\<close> panics.
\<close>

theorem tombstone_value_reads_as_deleted_counterexample:
  "Get (fst (after_put key_65536 TompStone)) (snd (after_put key_65536 TompStone)) key_65536
     \<in> {Some (Inl ErrDataCorruption), Some (Inr (replicate 64 (CHR ''x'')))}
   \<and> Get (fst (after_put key_65518 TompStone)) (snd (after_put key_65518 TompStone)) key_65518
     = Some (Inl Panic)"
proof
  have len: "length key_65536 = 65536" by (simp add: key_65536_def)
  have tk: "take 64 key_65536 = replicate 64 (CHR ''x'')" by (simp add: key_65536_def)
  have g: "Get (fst (after_put key_65536 TompStone)) (snd (after_put key_65536 TompStone)) key_65536
    = Some (case ExtractDataFileRec (CompressDataFileRec key_65536 TompStone 1) of
              Inl err \<Rightarrow> Inl err
            | Inr dl \<Rightarrow> if DataRec.Value (fst dl) = TompStone
                        then Inl (ErrKeyNotExist (Key (fst dl)))
                        else Inr (DataRec.Value (fst dl)))"
    by (rule after_put_Get_raw) (simp add: len)
  from Extract_Compress_long_key [OF len length_TompStone, of 1]
  show "Get (fst (after_put key_65536 TompStone)) (snd (after_put key_65536 TompStone)) key_65536
     \<in> {Some (Inl ErrDataCorruption), Some (Inr (replicate 64 (CHR ''x'')))}"
    unfolding g using xs_not_TompStone by (auto simp: tk)
next
  have len: "length key_65518 = 65518" by (simp add: key_65518_def)
  have g: "Get (fst (after_put key_65518 TompStone)) (snd (after_put key_65518 TompStone)) key_65518
    = Some (case ExtractDataFileRec (CompressDataFileRec key_65518 TompStone 1) of
              Inl err \<Rightarrow> Inl err
            | Inr dl \<Rightarrow> if DataRec.Value (fst dl) = TompStone
                        then Inl (ErrKeyNotExist (Key (fst dl)))
                        else Inr (DataRec.Value (fst dl)))"
    by (rule after_put_Get_raw) (simp add: len)
  have "ExtractDataFileRec (CompressDataFileRec key_65518 TompStone 1) = Inl Panic"
    by (rule Extract_Compress_key_wraps) (simp_all add: len)
  then show "Get (fst (after_put key_65518 TompStone)) (snd (after_put key_65518 TompStone))
      key_65518 = Some (Inl Panic)"
    unfolding g by simp
qed

section \<open>The engine: the result of delete\<close>

text \<open>
  Claim C10.  On a handle that is not read-only, for every key for which \<open>Get\<close> returns
  a value (the key is in the index and live), \<open>Delete\<close> returns \<open>nil\<close> whatever the
  operating system does during the append of the tombstone record, and when that
  append fails the entry of the key in the index is left as it was.
\<close>

theorem delete_drops_append_error:
  assumes "accessPermission (usrOpts b) \<noteq> ReadOnly" and "Get b d key = Some (Inr v)"
  shows "map_option fst (Delete b d key env) = Some None
       \<and> (\<forall>e. fst (Put b d key TompStone env) = Some e \<longrightarrow>
             map_option (\<lambda>r. keyDir (fst (snd r)) key) (Delete b d key env)
               = Some (keyDir b key))"
  using assms by (auto simp: Delete_def Put_def Let_def split: sum.splits)

lemma os_Write_disk_full:
  assumes "\<not> fclosed f" and "d (fname f) = Some c" and "foffset f = length c"
  shows "os_Write (d, f, WShort 0 e # rs) b = ((0, Some e), (d, f, rs))"
proof -
  have "d(fname f \<mapsto> c) = d" using assms(2) by (rule map_upd_triv)
  moreover have "f\<lparr>foffset := length c\<rparr> = f" using assms(3) by simp
  ultimately show ?thesis using assms by (simp add: Let_def)
qed

lemma sio_Write_disk_full:
  assumes "\<not> fclosed f" and "d (fname f) = Some c" and "foffset f = length c"
  shows "fst (sio_Write os_Write b (d, f, replicate 6 (WShort 0 EIO))) = Inl (ErrOs EIO)"
proof -
  have w: "os_Write (d, f, WShort 0 EIO # rs) b' = ((0, Some EIO), (d, f, rs))" for rs b'
    using assms by (rule os_Write_disk_full)
  have r6: "replicate 6 (WShort 0 EIO) = WShort 0 EIO # WShort 0 EIO # WShort 0 EIO #
      WShort 0 EIO # WShort 0 EIO # [WShort 0 EIO]"
    by (simp add: eval_nat_numeral)
  have step: "Write_loop os_Write b 0 (Some EIO) a (d, f, WShort 0 EIO # rs)
      = Write_loop os_Write b 0 (Some EIO) (a + 1) (d, f, rs)" if "a \<noteq> 5" for a rs
    using that by (subst Write_loop.simps) (simp add: maxAttempts_def w del: os_Write.simps)
  have stop: "Write_loop os_Write b 0 (Some EIO) 5 s = (Inl (ErrOs EIO), s)" for s
    by (subst Write_loop.simps) (simp add: maxAttempts_def)
  have "sio_Write os_Write b (d, f, replicate 6 (WShort 0 EIO))
      = Write_loop os_Write b 0 (Some EIO) 0
          (d, f, [WShort 0 EIO, WShort 0 EIO, WShort 0 EIO, WShort 0 EIO, WShort 0 EIO])"
    unfolding r6 sio_Write_def Let_def w by simp
  also have "\<dots> = Write_loop os_Write b 0 (Some EIO) 1
      (d, f, [WShort 0 EIO, WShort 0 EIO, WShort 0 EIO, WShort 0 EIO])"
    using step [of 0] by simp
  also have "\<dots> = Write_loop os_Write b 0 (Some EIO) 2 (d, f, [WShort 0 EIO, WShort 0 EIO, WShort 0 EIO])"
    using step [of 1] by simp
  also have "\<dots> = Write_loop os_Write b 0 (Some EIO) 3 (d, f, [WShort 0 EIO, WShort 0 EIO])"
    using step [of 2] by simp
  also have "\<dots> = Write_loop os_Write b 0 (Some EIO) 4 (d, f, [WShort 0 EIO])"
    using step [of 3] by simp
  also have "\<dots> = Write_loop os_Write b 0 (Some EIO) 5 (d, f, [])"
    using step [of 4] by simp
  finally show ?thesis by (simp only: stop fst_conv)
qed

lemma Put_disk_full:
  "fst (Put (fst (after_put ''k'' ''v'')) (snd (after_put ''k'' ''v'')) ''k'' TompStone (failing 3 4))
     = Some (ErrOs EIO)"
proof -
  let ?c = "CompressDataFileRec ''k'' ''v'' 1"
  let ?f = "\<lparr>fname = data_name (quiet 2), foffset = length ?c, fclosed = False\<rparr>"
  let ?d = "[data_name (quiet 2) \<mapsto> ?c]"
  have "fst (sio_Write os_Write (CompressDataFileRec ''k'' TompStone 3)
      (?d, ?f, replicate 6 (WShort 0 EIO))) = Inl (ErrOs EIO)"
    by (rule sio_Write_disk_full [where c = ?c]) simp_all
  then show ?thesis
    by (simp add: after_put_eq Put_def parseUsrOpts_def WriteData_def failing_def disk_full_def
        Let_def maxFileSize_def split: sum.splits)
qed

theorem delete_drops_append_error_witness:
  "map_option fst
     (Delete (fst (after_put ''k'' ''v'')) (snd (after_put ''k'' ''v'')) ''k'' (failing 3 4))
     = Some None
   \<and> fst (Put (fst (after_put ''k'' ''v'')) (snd (after_put ''k'' ''v'')) ''k'' TompStone
             (failing 3 4))
     = Some (ErrOs EIO)
   \<and> map_option (\<lambda>r. keyDir (fst (snd r)) ''k'')
       (Delete (fst (after_put ''k'' ''v'')) (snd (after_put ''k'' ''v'')) ''k'' (failing 3 4))
     = Some (keyDir (fst (after_put ''k'' ''v'')) ''k'')"
proof -
  have f: "fits ''k'' ''v''" by (simp add: fits_def)
  have g: "Get (fst (after_put ''k'' ''v'')) (snd (after_put ''k'' ''v'')) ''k'' = Some (Inr ''v'')"
    using after_put_Get [OF f] by (simp add: TompStone_def)
  have rw: "accessPermission (usrOpts (fst (after_put ''k'' ''v''))) \<noteq> ReadOnly"
    by (simp add: after_put_eq parseUsrOpts_def)
  from delete_drops_append_error [OF rw g, of "failing 3 4"] Put_disk_full
  show ?thesis by blast
qed

section \<open>The engine: what merge does to the index\<close>

text \<open>
  Claim C3, as amended.  On a read-write handle in step with its directory, a \<open>Merge\<close>
  during which the operating system reports no fault and the clock gives every new
  segment a name that is not in use returns \<open>nil\<close>, and for the index at its start:
  every entry whose file id is the name of the active segment is in the new index
  unchanged; every key outside the active segment whose stored value is the tombstone
  is absent from the new index; every other key is in the new index, bound to a record
  in a file that did not exist before the merge and that holds the value it had; a key
  that was not in the index is not in the new index.
\<close>

theorem merge_rewrites_index:
  assumes "engine_ok b d" and "nominal_merge b d env"
  shows "\<exists>b' d'. Merge b d env = Some (None, b', d') \<and>
           (\<forall>k. keyDir b k = None \<longrightarrow> keyDir b' k = None) \<and>
           (\<forall>k r. keyDir b k = Some r \<and> FileId r = AppendFile_Name (activeFile b) \<longrightarrow>
              keyDir b' k = Some r) \<and>
           (\<forall>k r. keyDir b k = Some r \<and> FileId r \<noteq> AppendFile_Name (activeFile b) \<and>
              entry_holds d k r TompStone \<longrightarrow> keyDir b' k = None) \<and>
           (\<forall>k r v. keyDir b k = Some r \<and> FileId r \<noteq> AppendFile_Name (activeFile b) \<and>
              entry_holds d k r v \<and> v \<noteq> TompStone \<longrightarrow>
              (\<exists>r'. keyDir b' k = Some r' \<and> FileId r' \<notin> dom d \<and> entry_holds d' k r' v \<and>
                    Get b' d' k = Some (Inr v)))"
proof -
  from Merge_nominal [OF assms] obtain new' d' where
    m: "Merge b d env = Some (None, b\<lparr>keyDir := new'\<rparr>, d')"
    and mk: "\<And>k. merged_key b d d' Map.empty new' k"
    by blast
  let ?b' = "b\<lparr>keyDir := new'\<rparr>"
  have 1: "keyDir ?b' k = None" if "keyDir b k = None" for k
    using mk [of k] that by (simp add: merged_key_def)
  have 2: "keyDir ?b' k = Some r"
    if "keyDir b k = Some r" "FileId r = AppendFile_Name (activeFile b)" for k r
    using mk [of k] that by (simp add: merged_key_def AppendFile_Name_def)
  have 3: "keyDir ?b' k = None"
    if "keyDir b k = Some r" "FileId r \<noteq> AppendFile_Name (activeFile b)"
      "entry_holds d k r TompStone" for k r
    using mk [of k] that by (simp add: merged_key_def AppendFile_Name_def)
  have 4: "\<exists>r'. keyDir ?b' k = Some r' \<and> FileId r' \<notin> dom d \<and> entry_holds d' k r' v \<and>
        Get ?b' d' k = Some (Inr v)"
    if "keyDir b k = Some r" "FileId r \<noteq> AppendFile_Name (activeFile b)"
      "entry_holds d k r v" "v \<noteq> TompStone" for k r v
  proof -
    from that(3,4) have "\<not> entry_holds d k r TompStone"
      using entry_holds_unique by blast
    with mk [of k] that(1,2) obtain r' v' where r': "entry_holds d k r v'"
      "keyDir ?b' k = Some r'" "FileId r' \<notin> dom d" "entry_holds d' k r' v'"
      by (auto simp: merged_key_def AppendFile_Name_def)
    from entry_holds_unique [OF that(3) r'(1)] have "v' = v" by simp
    with r' Get_holds [OF r'(2) r'(4)] that(4) show ?thesis by auto
  qed
  from m 1 2 3 4 show ?thesis by blast
qed

lemma nine_data [simp]: "data_name (quiet 9) = ''9.data''" "hint_name (quiet 9) = ''9.hint''"
  by code_simp+

lemma reopened_ok: "engine_ok (fst reopened) (snd reopened)"
proof -
  have "fits ''k'' ''v''" by (simp add: fits_def)
  from entry_holds_single [OF this, of "''1.data''" 5] show ?thesis
    by (auto simp: reopened_def engine_ok_def parseUsrOpts_def index_ok_def)
qed

lemma merge_once_nominal: "nominal_merge (fst reopened) (snd reopened) merge_once"
  by (simp add: nominal_merge_def reopened_def merge_once_def nominal_append_def no_faults_def)
     (simp add: quiet_def)

theorem merge_rewrites_index_witness:
  "\<exists>b' d' r'. Merge (fst reopened) (snd reopened) merge_once = Some (None, b', d') \<and>
      keyDir b' ''k'' = Some r' \<and> FileId r' \<noteq> ''1.data'' \<and> Get b' d' ''k'' = Some (Inr ''v'')"
proof -
  have "fits ''k'' ''v''" by (simp add: fits_def)
  from entry_holds_single [OF this, of "''1.data''" 5]
  have h: "entry_holds (snd reopened) ''k''
      \<lparr>FileId = ''1.data'', ValuePos = 0, ValueSize = 1, Tstamp = 5\<rparr> ''v''"
    by (simp add: reopened_def)
  have k: "keyDir (fst reopened) ''k''
      = Some \<lparr>FileId = ''1.data'', ValuePos = 0, ValueSize = 1, Tstamp = 5\<rparr>"
    by (simp add: reopened_def)
  have a: "FileId \<lparr>FileId = ''1.data'', ValuePos = 0, ValueSize = 1, Tstamp = 5\<rparr>
      \<noteq> AppendFile_Name (activeFile (fst reopened))"
    by (simp add: reopened_def AppendFile_Name_def NewAppendFile_def)
  have v: "''v'' \<noteq> TompStone" by (simp add: TompStone_def)
  have dm: "''1.data'' \<in> dom (snd reopened)" by (simp add: reopened_def)
  from merge_rewrites_index [OF reopened_ok merge_once_nominal] obtain b' d' where
    m: "Merge (fst reopened) (snd reopened) merge_once = Some (None, b', d')"
    and live: "\<forall>k r v. keyDir (fst reopened) k = Some r \<and>
        FileId r \<noteq> AppendFile_Name (activeFile (fst reopened)) \<and>
        entry_holds (snd reopened) k r v \<and> v \<noteq> TompStone \<longrightarrow>
        (\<exists>r'. keyDir b' k = Some r' \<and> FileId r' \<notin> dom (snd reopened) \<and>
              entry_holds d' k r' v \<and> Get b' d' k = Some (Inr v))"
    by blast
  from live k a h v obtain r' where "keyDir b' ''k'' = Some r'"
    "FileId r' \<notin> dom (snd reopened)" "Get b' d' ''k'' = Some (Inr ''v'')"
    by blast
  with m dm show ?thesis by (intro exI [of _ b'] exI [of _ d'] exI [of _ r']) auto
qed

lemma deleted_ok: "engine_ok (fst deleted_in_active) (snd deleted_in_active)"
proof -
  have "fits ''k'' TompStone" by (simp add: fits_def)
  from entry_holds_single [OF this, of "''1.data''" 5] show ?thesis
    by (auto simp: deleted_in_active_def engine_ok_def parseUsrOpts_def index_ok_def
        writer_ok_def)
qed

text \<open>
  Claim C3 as stated fails for a key whose tombstone record is in the active segment:
  \<open>Get\<close> of the key answers \<open>key does not exist\<close>, so its stored value is the tombstone,
  yet after \<open>Merge\<close> the key is in the index with its entry unchanged.
\<close>

theorem merge_rewrites_index_counterexample:
  "engine_ok (fst deleted_in_active) (snd deleted_in_active)
   \<and> Get (fst deleted_in_active) (snd deleted_in_active) ''k''
       = Some (Inl (ErrKeyNotExist ''k''))
   \<and> Merge (fst deleted_in_active) (snd deleted_in_active)
       \<lparr>readdir = Inr [''1.data''],
        ranging = [(''k'', \<lparr>step_now = 9, step_os = quiet 9, step_hint = []\<rparr>)]\<rparr>
       = Some (None, fst deleted_in_active, snd deleted_in_active)
   \<and> keyDir (fst deleted_in_active) ''k''
       = Some \<lparr>FileId = ''1.data'', ValuePos = 0, ValueSize = 64, Tstamp = 5\<rparr>"
proof -
  have f: "fits ''k'' TompStone" by (simp add: fits_def)
  have h: "entry_holds (snd deleted_in_active) ''k''
      \<lparr>FileId = ''1.data'', ValuePos = 0, ValueSize = 64, Tstamp = 5\<rparr> TompStone"
    using entry_holds_single [OF f, of "''1.data''" 5] by (simp add: deleted_in_active_def)
  have k: "keyDir (fst deleted_in_active) ''k''
      = Some \<lparr>FileId = ''1.data'', ValuePos = 0, ValueSize = 64, Tstamp = 5\<rparr>"
    by (simp add: deleted_in_active_def)
  have g: "Get (fst deleted_in_active) (snd deleted_in_active) ''k''
      = Some (Inl (ErrKeyNotExist ''k''))"
    using Get_holds [OF k h] by simp
  have m: "Merge (fst deleted_in_active) (snd deleted_in_active)
       \<lparr>readdir = Inr [''1.data''],
        ranging = [(''k'', \<lparr>step_now = 9, step_os = quiet 9, step_hint = []\<rparr>)]\<rparr>
       = Some (None, fst deleted_in_active, snd deleted_in_active)"
    by (simp add: Merge_def deleted_in_active_def parseUsrOpts_def listOldFiles_def
        AppendFile_Name_def)
  from deleted_ok g m k show ?thesis by blast
qed

end
